theory Spec2Isabelle
  imports Complex_Main "HOL-Library.Word" "HOL-Library.Signed_Division" "HOL-Library.Multiset"
begin

unbundle bit_operations_syntax

section \<open>The job scheduler (internal/daemon/scheduler.go, jobs.go)\<close>

text \<open>
  Go's \<^verbatim>\<open>error\<close> values that reach the scheduler: the two errors a context reports
  (\<^verbatim>\<open>context.Canceled\<close>, \<^verbatim>\<open>context.DeadlineExceeded\<close>) and any other error, carried
  by its text. A nil error is \<open>None\<close>.
\<close>

datatype go_error = Canceled | DeadlineExceeded | ProbeError string

text \<open>
  \<^verbatim>\<open>time.Time\<close> is an instant on an unbounded line, counted in nanoseconds;
  \<^verbatim>\<open>time.Duration\<close> is a signed 64-bit count of nanoseconds and \<^verbatim>\<open>int\<close> a signed
  64-bit integer. \<^verbatim>\<open>t.Add(d)\<close> moves the instant by the signed value of \<open>d\<close>.
\<close>

type_synonym time = int
type_synonym duration = "64 word"

definition time_Add :: "time \<Rightarrow> duration \<Rightarrow> time" where
  "time_Add t d = t + sint d"

definition time_After :: "time \<Rightarrow> time \<Rightarrow> bool" where
  "time_After t u = (u < t)"

definition Second :: duration where
  "Second = 1000000000"

text \<open>
  Go's \<^verbatim>\<open>/\<close> on a signed 64-bit integer truncates towards zero and wraps on
  overflow (which only \<^verbatim>\<open>MinInt64 / -1\<close> reaches).
\<close>

definition go_div :: "64 word \<Rightarrow> 64 word \<Rightarrow> 64 word" where
  "go_div a b = word_of_int (sint a sdiv sint b)"

text \<open>
  The struct \<^verbatim>\<open>Job\<close>. The field \<^verbatim>\<open>Run\<close> is a closure over the daemon; its result
  is supplied by the environment when an execution completes. The mutex \<^verbatim>\<open>mu\<close> is
  represented by the atomicity of the steps below: each critical section is one step.
\<close>

record Job =
  Name :: string
  Interval :: duration
  lastRun :: time
  nextRun :: time
  lastError :: "go_error option"
  errorCount :: "64 word"
  running :: bool

text \<open>The composite literal \<^verbatim>\<open>&Job{Name: .., Interval: .., Run: ..}\<close> of registerJobs.\<close>

definition Job_literal :: "string \<Rightarrow> duration \<Rightarrow> Job" where
  "Job_literal n i =
     \<lparr>Name = n, Interval = i, lastRun = 0, nextRun = 0, lastError = None,
      errorCount = 0, running = False\<rparr>"

text \<open>
  runJob, first critical section (lines 97-104): \<open>None\<close> is the early return taken when
  an execution is already in flight.
\<close>

definition runJob_begin :: "Job \<Rightarrow> time \<Rightarrow> Job option" where
  "runJob_begin job now =
     (if running job then None
      else Some (job\<lparr>running := True, lastRun := now\<rparr>))"

text \<open>
  runJob, second critical section (lines 114-128), entered with the value \<open>err\<close> that
  \<^verbatim>\<open>job.Run(ctx)\<close> returned and the reading \<open>now\<close> of the clock.
\<close>

definition runJob_finish :: "Job \<Rightarrow> go_error option \<Rightarrow> time \<Rightarrow> Job" where
  "runJob_finish job err now =
     (case err of
        Some e \<Rightarrow>
          job\<lparr>running := False, lastError := Some e, errorCount := errorCount job + 1,
              nextRun := time_Add now (go_div (Interval job) 2)\<rparr>
      | None \<Rightarrow>
          job\<lparr>running := False, lastError := None,
              nextRun := time_Add now (Interval job)\<rparr>)"

text \<open>
  One call of runJob run without interleaving: the first critical section, the call of
  \<^verbatim>\<open>job.Run\<close> (returning \<open>err\<close>), the second critical section. The early return
  leaves the Job as it is.
\<close>

definition runJob :: "Job \<Rightarrow> time \<Rightarrow> go_error option \<Rightarrow> time \<Rightarrow> Job" where
  "runJob job started err finished =
     (case runJob_begin job started of
        None \<Rightarrow> job
      | Some j \<Rightarrow> runJob_finish j err finished)"

text \<open>Consecutive executions of one Job, each given as (start, result of Run, end).\<close>

fun executions :: "Job \<Rightarrow> (time \<times> go_error option \<times> time) list \<Rightarrow> Job" where
  "executions job [] = job"
| "executions job ((started, err, finished) # rest) =
     executions (runJob job started err finished) rest"

text \<open>
  The scheduler's state. Beside each Job the model counts the goroutines of that Job:
  \<open>spawned\<close> are the \<^verbatim>\<open>go s.runJob(job)\<close> statements of checkJobs whose goroutine has
  not yet taken the Job's lock, \<open>executing\<close> are the calls of runJob that are between
  their two critical sections, which is where \<^verbatim>\<open>job.Run\<close> is in flight.
\<close>

record job_proc =
  job :: Job
  spawned :: nat
  executing :: nat

type_synonym Scheduler = "job_proc list"

definition NewScheduler :: Scheduler where
  "NewScheduler = []"

definition AddJob :: "Scheduler \<Rightarrow> Job \<Rightarrow> time \<Rightarrow> Scheduler" where
  "AddJob s j now =
     s @ [\<lparr>job = j\<lparr>nextRun := time_Add now (Second * 5)\<rparr>, spawned = 0, executing = 0\<rparr>]"

text \<open>The test of checkJobs (line 87), read under the Job's lock.\<close>

definition shouldRun :: "Job \<Rightarrow> time \<Rightarrow> bool" where
  "shouldRun j now = (\<not> running j \<and> time_After now (nextRun j))"

text \<open>GetJob: the index of the first Job of that name.\<close>

fun GetJob :: "Scheduler \<Rightarrow> string \<Rightarrow> nat option" where
  "GetJob [] n = None"
| "GetJob (p # ps) n =
     (if Name (job p) = n then Some 0 else map_option Suc (GetJob ps n))"

definition TriggerJob :: "Scheduler \<Rightarrow> string \<Rightarrow> time \<Rightarrow> Scheduler \<times> bool" where
  "TriggerJob s n now =
     (case GetJob s n of
        None \<Rightarrow> (s, False)
      | Some i \<Rightarrow> (s[i := (s ! i)\<lparr>job := (job (s ! i))\<lparr>nextRun := now\<rparr>\<rparr>], True))"

text \<open>
  The atomic steps of the running scheduler. Every step is one critical section of the
  source, or a critical section together with the \<^verbatim>\<open>go\<close> statement that follows it:
  \<^item> \<open>Register\<close>: registerJobs adds a fresh Job;
  \<^item> \<open>Check i now\<close>: the body of the loop of checkJobs for the Job at index \<open>i\<close>, at
    tick time \<open>now\<close> (any number of ticks may be checking at once);
  \<^item> \<open>Launch i now\<close>: a spawned goroutine of Job \<open>i\<close> runs the first critical section of runJob;
  \<^item> \<open>Complete i err now\<close>: an execution of Job \<open>i\<close> in flight returns \<open>err\<close> from
    \<^verbatim>\<open>job.Run\<close> and runs the second critical section;
  \<^item> \<open>Trigger n now\<close>: TriggerJob.
  A step that names no Job, no spawned goroutine or no execution in flight cannot
  happen: \<open>None\<close>.
\<close>

datatype sched_step =
    Register string duration time
  | Check nat time
  | Launch nat time
  | Complete nat "go_error option" time
  | Trigger string time

fun step :: "sched_step \<Rightarrow> Scheduler \<Rightarrow> Scheduler option" where
  "step (Register n d now) s = Some (AddJob s (Job_literal n d) now)"
| "step (Check i now) s =
     (if i < length s then
        (if shouldRun (job (s ! i)) now
         then Some (s[i := (s ! i)\<lparr>spawned := Suc (spawned (s ! i))\<rparr>])
         else Some s)
      else None)"
| "step (Launch i now) s =
     (if i < length s \<and> 0 < spawned (s ! i) then
        (case runJob_begin (job (s ! i)) now of
           None \<Rightarrow> Some (s[i := (s ! i)\<lparr>spawned := spawned (s ! i) - 1\<rparr>])
         | Some j \<Rightarrow>
             Some (s[i := (s ! i)\<lparr>job := j, spawned := spawned (s ! i) - 1,
                                 executing := Suc (executing (s ! i))\<rparr>]))
      else None)"
| "step (Complete i err now) s =
     (if i < length s \<and> 0 < executing (s ! i) then
        Some (s[i := (s ! i)\<lparr>job := runJob_finish (job (s ! i)) err now,
                            executing := executing (s ! i) - 1\<rparr>])
      else None)"
| "step (Trigger n now) s = Some (fst (TriggerJob s n now))"

fun steps :: "sched_step list \<Rightarrow> Scheduler \<Rightarrow> Scheduler option" where
  "steps [] s = Some s"
| "steps (e # es) s = (case step e s of None \<Rightarrow> None | Some s' \<Rightarrow> steps es s')"

text \<open>
  The invariant of a Job and its goroutines: at most one execution is in flight, and the
  flag \<^verbatim>\<open>running\<close> is set exactly while one is.
\<close>

definition one_in_flight :: "job_proc \<Rightarrow> bool" where
  "one_in_flight p = (executing p \<le> 1 \<and> (running (job p) \<longleftrightarrow> executing p = 1))"

text \<open>
  runTraceroute (jobs.go): the loop polls the context before each target and returns
  \<^verbatim>\<open>ctx.Err()\<close> once it is done; a failed trace or a failed save is logged and the loop
  goes on. \<open>ctx k\<close> is what \<^verbatim>\<open>ctx.Err()\<close> holds at the \<open>k\<close>-th poll (\<open>None\<close> while the
  context is live), \<open>trace\<close> and \<open>save\<close> are the probe and the storage.
\<close>

fun runTraceroute_from ::
  "(nat \<Rightarrow> go_error option) \<Rightarrow> (string \<Rightarrow> go_error + 'r) \<Rightarrow> ('r \<Rightarrow> go_error option) \<Rightarrow>
   nat \<Rightarrow> string list \<Rightarrow> go_error option" where
  "runTraceroute_from ctx trace save k [] = None"
| "runTraceroute_from ctx trace save k (target # rest) =
     (case ctx k of
        Some e \<Rightarrow> Some e
      | None \<Rightarrow>
          (case trace target of
             Inl e \<Rightarrow> runTraceroute_from ctx trace save (Suc k) rest
           | Inr result \<Rightarrow>
               (case save result of
                  Some e \<Rightarrow> runTraceroute_from ctx trace save (Suc k) rest
                | None \<Rightarrow> runTraceroute_from ctx trace save (Suc k) rest)))"

definition runTraceroute ::
  "(nat \<Rightarrow> go_error option) \<Rightarrow> (string \<Rightarrow> go_error + 'r) \<Rightarrow> ('r \<Rightarrow> go_error option) \<Rightarrow>
   string list \<Rightarrow> go_error option" where
  "runTraceroute ctx trace save targets = runTraceroute_from ctx trace save 0 targets"

text \<open>
  Environments for the examples below: a context that is done with error \<open>e\<close> at every
  poll, a probe whose trace fails, a storage whose save succeeds.
\<close>

definition ctx_done :: "go_error \<Rightarrow> nat \<Rightarrow> go_error option" where
  "ctx_done e k = Some e"

definition trace_fails :: "string \<Rightarrow> go_error + unit" where
  "trace_fails target = Inl (ProbeError target)"

definition save_ok :: "unit \<Rightarrow> go_error option" where
  "save_ok r = None"

section \<open>The public IP probe (internal/probes/ip.go)\<close>

record IPProvider =
  provider_Name :: string
  URL :: string

definition DefaultIPProviders :: "IPProvider list" where
  "DefaultIPProviders =
     [\<lparr>provider_Name = ''ipify'', URL = ''https://api.ipify.org''\<rparr>,
      \<lparr>provider_Name = ''ifconfig.me'', URL = ''https://ifconfig.me/ip''\<rparr>,
      \<lparr>provider_Name = ''icanhazip'', URL = ''https://icanhazip.com''\<rparr>]"

text \<open>The struct \<^verbatim>\<open>IPProbe\<close>; the HTTP client belongs to the environment.\<close>

record IPProbe =
  providers :: "IPProvider list"
  timeout :: duration

definition NewIPProbe :: IPProbe where
  "NewIPProbe = \<lparr>providers = DefaultIPProviders, timeout = 10 * Second\<rparr>"

text \<open>
  What one \<^verbatim>\<open>select\<close> of the collection loop of GetPublicIP (lines 68-79) receives:
  an address on \<^verbatim>\<open>results\<close>, an error on \<^verbatim>\<open>errors\<close>, the tick of
  \<^verbatim>\<open>time.After(p.timeout)\<close>, or the end of the context with its error.
\<close>

datatype ip_event = GotIP string | GotErr go_error | TimedOut | CtxDone go_error

text \<open>How the loop ends: after its last iteration, or by the return in the context's case.\<close>

datatype collected = Collected "string list" "go_error list" | Aborted go_error

text \<open>
  The loop, with \<open>n\<close> iterations to go, over the events that will ever arrive, in the
  order in which the \<^verbatim>\<open>select\<close> statements take them. An iteration with no event
  left blocks for ever: \<open>None\<close>. In the timeout's case the \<^verbatim>\<open>break\<close> leaves the
  \<^verbatim>\<open>select\<close> statement only, so the loop goes on to its next iteration.
\<close>

fun collect :: "nat \<Rightarrow> ip_event list \<Rightarrow> string list \<Rightarrow> go_error list \<Rightarrow> collected option" where
  "collect 0 events ips errs = Some (Collected ips errs)"
| "collect (Suc n) [] ips errs = None"
| "collect (Suc n) (GotIP ip # events) ips errs = collect n events (ips @ [ip]) errs"
| "collect (Suc n) (GotErr err # events) ips errs = collect n events ips (errs @ [err])"
| "collect (Suc n) (TimedOut # events) ips errs = collect n events ips errs"
| "collect (Suc n) (CtxDone err # events) ips errs = Some (Aborted err)"

text \<open>consensus, first loop: \<^verbatim>\<open>counts[ip]++\<close> for every address.\<close>

definition count_up :: "(string \<rightharpoonup> int) \<Rightarrow> string \<Rightarrow> (string \<rightharpoonup> int)" where
  "count_up counts ip = counts(ip \<mapsto> (case counts ip of None \<Rightarrow> 0 | Some c \<Rightarrow> c) + 1)"

definition count_ips :: "string list \<Rightarrow> (string \<rightharpoonup> int)" where
  "count_ips ips = foldl count_up Map.empty ips"

text \<open>
  consensus, second loop: \<^verbatim>\<open>for ip, count := range counts\<close>. Go visits the keys of a
  map in an order it does not specify; \<open>order\<close> is the order of this run.
\<close>

fun pick_max :: "(string \<rightharpoonup> int) \<Rightarrow> string list \<Rightarrow> string \<times> int \<Rightarrow> string \<times> int" where
  "pick_max counts [] (maxIP, maxCount) = (maxIP, maxCount)"
| "pick_max counts (ip # rest) (maxIP, maxCount) =
     (case counts ip of
        None \<Rightarrow> pick_max counts rest (maxIP, maxCount)
      | Some cnt \<Rightarrow>
          (if cnt > maxCount then pick_max counts rest (ip, cnt)
           else pick_max counts rest (maxIP, maxCount)))"

definition consensus :: "string list \<Rightarrow> string list \<Rightarrow> string" where
  "consensus order ips = fst (pick_max (count_ips ips) order ('''', 0))"


datatype ip_error = CtxError go_error | AllProvidersFailed "go_error list" | NoProvidersResponded

text \<open>
  GetPublicIP, given the events of the run and the order of the map; \<open>None\<close> when the
  call never returns.
\<close>

definition GetPublicIP :: "IPProbe \<Rightarrow> ip_event list \<Rightarrow> string list \<Rightarrow> (ip_error + string) option" where
  "GetPublicIP p events order =
     (case collect (length (providers p)) events [] [] of
        None \<Rightarrow> None
      | Some (Aborted err) \<Rightarrow> Some (Inl (CtxError err))
      | Some (Collected ips errs) \<Rightarrow>
          (if length ips = 0 then
             (if length errs > 0 then Some (Inl (AllProvidersFailed errs))
              else Some (Inl NoProvidersResponded))
           else Some (Inr (consensus order ips))))"

section \<open>The traceroute output parser (internal/probes/traceroute.go)\<close>

text \<open>
  The struct \<^verbatim>\<open>model.TraceHop\<close>. The type \<open>'f\<close> stands for \<^verbatim>\<open>float64\<close>; its zero
  value is \<open>0\<close>.
\<close>

record 'f TraceHop =
  hop_ID :: int
  TraceID :: int
  HopNum :: int
  hop_IP :: string
  hop_Hostname :: string
  hop_LatencyMs :: 'f
  Lost :: bool

subsection \<open>Regular expressions as Go's regexp package matches them\<close>

text \<open>
  The character classes of the hop pattern: \<^verbatim>\<open>\d\<close> is \<^verbatim>\<open>[0-9]\<close>, \<^verbatim>\<open>\s\<close> is
  \<^verbatim>\<open>[\t\n\f\r ]\<close>, and a literal character.
\<close>

datatype cls = Digit | Space | Lit char

fun in_cls :: "cls \<Rightarrow> char \<Rightarrow> bool" where
  "in_cls Digit c = (c \<in> set ''0123456789'')"
| "in_cls Space c = (c \<in> set [CHR 0x09, CHR 0x0A, CHR 0x0C, CHR 0x0D, CHR 0x20])"
| "in_cls (Lit a) c = (c = a)"

text \<open>
  The pattern language the hop pattern needs: one character of a class, the greedy
  repetitions \<^verbatim>\<open>*\<close>, \<^verbatim>\<open>+\<close> and \<^verbatim>\<open>?\<close> of a class, sequence, alternation, and a
  capturing group with its number.
\<close>

datatype regex =
    One cls
  | Star cls
  | Plus cls
  | Opt cls
  | Seq regex regex
  | Alt regex regex
  | Group nat regex

text \<open>
  A matcher state is the input still to be read and the text of the groups captured so
  far. \<open>run r st\<close> lists the states in which a match of \<open>r\<close> from \<open>st\<close> can end, in the
  order of preference of a leftmost-first (Perl-style) matcher: a greedy repetition
  prefers the longest run, an alternation its left branch. Go's regexp package returns
  the match a backtracking matcher would find first, so the head of the list is Go's
  answer.
\<close>

type_synonym mstate = "string \<times> (nat \<rightharpoonup> string)"

fun repeats :: "cls \<Rightarrow> string \<Rightarrow> string list" where
  "repeats c [] = [[]]"
| "repeats c (x # xs) = (if in_cls c x then repeats c xs @ [x # xs] else [x # xs])"

fun run :: "regex \<Rightarrow> mstate \<Rightarrow> mstate list" where
  "run (One c) (s, g) =
     (case s of [] \<Rightarrow> [] | x # xs \<Rightarrow> if in_cls c x then [(xs, g)] else [])"
| "run (Star c) (s, g) = map (\<lambda>r. (r, g)) (repeats c s)"
| "run (Plus c) (s, g) =
     (case s of [] \<Rightarrow> [] | x # xs \<Rightarrow> if in_cls c x then map (\<lambda>r. (r, g)) (repeats c xs) else [])"
| "run (Opt c) (s, g) =
     (case s of [] \<Rightarrow> [(s, g)] | x # xs \<Rightarrow> if in_cls c x then [(xs, g), (s, g)] else [(s, g)])"
| "run (Seq a b) st = concat (map (run b) (run a st))"
| "run (Alt a b) st = run a st @ run b st"
| "run (Group k r) (s, g) =
     map (\<lambda>(s', g'). (s', g'(k \<mapsto> take (length s - length s') s))) (run r (s, g))"

text \<open>
  \<^verbatim>\<open>FindStringSubmatch\<close> for a pattern that starts with \<^verbatim>\<open>^\<close> and has \<open>n\<close> groups:
  the match can only start at the beginning of the text. The result is nil (\<open>None\<close>) when
  nothing matches; otherwise the matched text followed by the text of the groups 1 to
  \<open>n\<close>, the empty string for a group that took no part in the match.
\<close>

definition FindStringSubmatch :: "regex \<Rightarrow> nat \<Rightarrow> string \<Rightarrow> string list option" where
  "FindStringSubmatch r n s =
     (case run r (s, Map.empty) of
        [] \<Rightarrow> None
      | (rest, g) # _ \<Rightarrow>
          Some (take (length s - length rest) s #
                map (\<lambda>k. case g k of None \<Rightarrow> [] | Some t \<Rightarrow> t) [1..<Suc n]))"

text \<open>
  The pattern of parseTracerouteOutput (line 78), without its anchor:
  \<^verbatim>\<open>\s*(\d+)\s+(?:(\d+\.\d+\.\d+\.\d+)\s+(\d+\.?\d*)\s*ms|\*\s+\*\s+\*)\<close>
\<close>

definition dotted_quad :: regex where
  "dotted_quad =
     Seq (Plus Digit) (Seq (One (Lit CHR ''.'')) (Seq (Plus Digit) (Seq (One (Lit CHR ''.''))
       (Seq (Plus Digit) (Seq (One (Lit CHR ''.'')) (Plus Digit))))))"

definition decimal :: regex where
  "decimal = Seq (Plus Digit) (Seq (Opt (Lit CHR ''.'')) (Star Digit))"

definition three_stars :: regex where
  "three_stars =
     Seq (One (Lit CHR ''*'')) (Seq (Plus Space) (Seq (One (Lit CHR ''*''))
       (Seq (Plus Space) (One (Lit CHR ''*'')))))"

definition hopRegex :: regex where
  "hopRegex =
     Seq (Star Space) (Seq (Group 1 (Plus Digit)) (Seq (Plus Space)
       (Alt
          (Seq (Group 2 dotted_quad) (Seq (Plus Space) (Seq (Group 3 decimal)
             (Seq (Star Space) (Seq (One (Lit CHR ''m'')) (One (Lit CHR ''s'')))))))
          three_stars)))"

subsection \<open>The standard library around the parser\<close>

text \<open>
  \<^verbatim>\<open>bufio.Scanner\<close> with its default split function ScanLines: the text is cut at
  every newline, one carriage return at the end of a line is dropped, and text after the
  last newline is a line of its own unless it is empty. A line of 65536 bytes or more
  (MaxScanTokenSize) ends the scan; parseTracerouteOutput does not look at the scanner's
  error. \<open>cur\<close> holds the current line read so far, in reverse.
\<close>

definition MaxScanTokenSize :: nat where
  "MaxScanTokenSize = 65536"

definition dropCR :: "string \<Rightarrow> string" where
  "dropCR l = (if l \<noteq> [] \<and> last l = CHR 0x0D then butlast l else l)"

fun scan_from :: "string \<Rightarrow> string \<Rightarrow> string list" where
  "scan_from cur [] = (if cur = [] then [] else [dropCR (rev cur)])"
| "scan_from cur (c # cs) =
     (if c = CHR 0x0A then dropCR (rev cur) # scan_from [] cs
      else if MaxScanTokenSize \<le> Suc (length cur) then []
      else scan_from (c # cur) cs)"

definition scan_lines :: "string \<Rightarrow> string list" where
  "scan_lines output = scan_from [] output"

text \<open>
  \<^verbatim>\<open>strconv.Atoi\<close> on a text without sign, which is what group 1 holds: the decimal
  value, or the largest \<^verbatim>\<open>int\<close> when the value does not fit (the range error is
  dropped by the caller); 0 for a text that is not a number.
\<close>

definition digit_val :: "char \<Rightarrow> int" where
  "digit_val c = of_char c - 48"

definition Atoi :: "string \<Rightarrow> int" where
  "Atoi s =
     (if s \<noteq> [] \<and> (\<forall>c \<in> set s. in_cls Digit c)
      then min (foldl (\<lambda>v c. 10 * v + digit_val c) 0 s) (2 ^ 63 - 1)
      else 0)"

subsection \<open>parseTracerouteOutput\<close>

text \<open>
  The body of the loop for one line: the hop it appends to \<^verbatim>\<open>hops\<close>, if any.
  \<open>parseFloat\<close> is \<^verbatim>\<open>strconv.ParseFloat(_, 64)\<close> with its error dropped.
\<close>

definition hop_of_line :: "(string \<Rightarrow> 'f::zero) \<Rightarrow> string \<Rightarrow> 'f TraceHop option" where
  "hop_of_line parseFloat line =
     (case FindStringSubmatch hopRegex 3 line of
        None \<Rightarrow> None
      | Some matches \<Rightarrow>
          (if length matches \<ge> 2 then
             (let hop = \<lparr>hop_ID = 0, TraceID = 0, HopNum = Atoi (matches ! 1), hop_IP = [],
                         hop_Hostname = [], hop_LatencyMs = 0, Lost = True\<rparr>
              in if length matches \<ge> 4 \<and> matches ! 2 \<noteq> [] then
                   (let hop' = hop\<lparr>hop_IP := matches ! 2, Lost := False\<rparr>
                    in if matches ! 3 \<noteq> []
                       then Some (hop'\<lparr>hop_LatencyMs := parseFloat (matches ! 3)\<rparr>)
                       else Some hop')
                 else Some hop)
           else None))"

fun parse_lines :: "(string \<Rightarrow> 'f::zero) \<Rightarrow> string list \<Rightarrow> 'f TraceHop list \<Rightarrow> 'f TraceHop list" where
  "parse_lines parseFloat [] hops = hops"
| "parse_lines parseFloat (line # rest) hops =
     (case hop_of_line parseFloat line of
        None \<Rightarrow> parse_lines parseFloat rest hops
      | Some hop \<Rightarrow> parse_lines parseFloat rest (hops @ [hop]))"

text \<open>The function returns the hops with a nil error on every path.\<close>

definition parseTracerouteOutput :: "(string \<Rightarrow> 'f::zero) \<Rightarrow> string \<Rightarrow> 'f TraceHop list" where
  "parseTracerouteOutput parseFloat output = parse_lines parseFloat (scan_lines output) []"

text \<open>
  For the examples: the exact value of a decimal numeral \<^verbatim>\<open>digits[.digits]\<close>, the number
  that \<^verbatim>\<open>strconv.ParseFloat\<close> rounds to the nearest \<^verbatim>\<open>float64\<close>.
\<close>

definition decimal_value :: "string \<Rightarrow> rat" where
  "decimal_value s =
     (let whole = takeWhile (\<lambda>c. c \<noteq> CHR ''.'') s;
          frac = drop (Suc (length whole)) s
      in of_int (foldl (\<lambda>v c. 10 * v + digit_val c) 0 whole) +
         of_int (foldl (\<lambda>v c. 10 * v + digit_val c) 0 frac) / 10 ^ length frac)"

section \<open>Address expansion (internal/probes/ping.go: expandCIDR, incIP)\<close>

subsection \<open>The types and functions of Go's package net that expandCIDR calls\<close>

text \<open>
  \<^verbatim>\<open>net.IP\<close> and \<^verbatim>\<open>net.IPMask\<close> are byte slices (4 bytes for IPv4, 16 for IPv6, most
  significant byte first; nil is the empty list); \<^verbatim>\<open>net.IPNet\<close> holds the network
  number and the mask.
\<close>

type_synonym netIP = "8 word list"

record IPNet =
  net_IP :: netIP
  Mask :: netIP

definition IPv4len :: nat where "IPv4len = 4"
definition IPv6len :: nat where "IPv6len = 16"

definition v4InV6Prefix :: netIP where
  "v4InV6Prefix = [0, 0, 0, 0, 0, 0, 0, 0, 0, 0, 0xff, 0xff]"

definition allFF :: "netIP \<Rightarrow> bool" where
  "allFF b = (\<forall>c \<in> set b. c = 0xff)"

text \<open>\<^verbatim>\<open>IP.To4\<close>: the 4-byte form of an IPv4 address, \<open>None\<close> for nil.\<close>

definition To4 :: "netIP \<Rightarrow> netIP option" where
  "To4 ip =
     (if length ip = IPv4len then Some ip
      else if length ip = IPv6len \<and> take 12 ip = v4InV6Prefix then Some (drop 12 ip)
      else None)"

text \<open>\<^verbatim>\<open>IP.Mask\<close>: the address under the mask, byte by byte; nil when the lengths do not fit.\<close>

definition IP_Mask :: "netIP \<Rightarrow> netIP \<Rightarrow> netIP" where
  "IP_Mask ip msk =
     (let msk' = (if length msk = IPv6len \<and> length ip = IPv4len \<and> allFF (take 12 msk)
                  then drop 12 msk else msk);
          ip' = (if length msk' = IPv4len \<and> length ip = IPv6len \<and> take 12 ip = v4InV6Prefix
                 then drop 12 ip else ip)
      in if length ip' \<noteq> length msk' then []
         else map (\<lambda>(a, m). a AND m) (zip ip' msk'))"

text \<open>\<^verbatim>\<open>CIDRMask ones bits\<close>: \<open>ones\<close> leading one bits in \<open>bits\<close> bits, here in \<open>l\<close> bytes.\<close>

fun mask_bytes :: "nat \<Rightarrow> nat \<Rightarrow> netIP" where
  "mask_bytes n 0 = []"
| "mask_bytes n (Suc l) =
     (if 8 \<le> n then 0xff # mask_bytes (n - 8) l
      else NOT (drop_bit n 0xff) # mask_bytes 0 l)"

definition CIDRMask :: "nat \<Rightarrow> nat \<Rightarrow> netIP" where
  "CIDRMask ones bits =
     (if bits \<noteq> 8 * IPv4len \<and> bits \<noteq> 8 * IPv6len then []
      else if bits < ones then []
      else mask_bytes ones (bits div 8))"

text \<open>\<^verbatim>\<open>networkNumberAndMask\<close> and \<^verbatim>\<open>IPNet.Contains\<close>.\<close>

definition networkNumberAndMask :: "IPNet \<Rightarrow> (netIP \<times> netIP) option" where
  "networkNumberAndMask n =
     (case (case To4 (net_IP n) of
              Some ip \<Rightarrow> Some ip
            | None \<Rightarrow> if length (net_IP n) \<noteq> IPv6len then None else Some (net_IP n)) of
        None \<Rightarrow> None
      | Some ip \<Rightarrow>
          (if length (Mask n) = IPv4len then
             (if length ip \<noteq> IPv4len then None else Some (ip, Mask n))
           else if length (Mask n) = IPv6len then
             (if length ip = IPv4len then Some (ip, drop 12 (Mask n)) else Some (ip, Mask n))
           else None))"

definition Contains :: "IPNet \<Rightarrow> netIP \<Rightarrow> bool" where
  "Contains n ip =
     (case networkNumberAndMask n of
        None \<Rightarrow> False
      | Some (nn, m) \<Rightarrow>
          (let ip' = (case To4 ip of Some x \<Rightarrow> x | None \<Rightarrow> ip)
           in length ip' = length nn \<and>
              (\<forall>i < length ip'. (nn ! i) AND (m ! i) = (ip' ! i) AND (m ! i))))"

text \<open>
  What \<^verbatim>\<open>net.ParseCIDR\<close> returns for an IPv4 prefix \<^verbatim>\<open>a.b.c.d/ones\<close>: the address
  in its 16-byte form, and the network with a 4-byte number and mask.
\<close>

definition parsed_v4 :: "netIP \<Rightarrow> nat \<Rightarrow> netIP \<times> IPNet" where
  "parsed_v4 a ones =
     (v4InV6Prefix @ a,
      \<lparr>net_IP = IP_Mask (v4InV6Prefix @ a) (CIDRMask ones 32), Mask = CIDRMask ones 32\<rparr>)"

subsection \<open>incIP and expandCIDR\<close>

text \<open>
  incIP: the loop runs from the last byte to the first; \<open>incIP_from j\<close> is the loop about
  to handle index \<open>j - 1\<close>. \<^verbatim>\<open>ip[j]++\<close> wraps a byte of 255 to 0.
\<close>

fun incIP_from :: "nat \<Rightarrow> netIP \<Rightarrow> netIP" where
  "incIP_from 0 ip = ip"
| "incIP_from (Suc j) ip =
     (let ip' = ip[j := ip ! j + 1]
      in if ip' ! j > 0 then ip' else incIP_from j ip')"

definition incIP :: "netIP \<Rightarrow> netIP" where
  "incIP ip = incIP_from (length ip) ip"

text \<open>
  The loop of expandCIDR (lines 159-161). It ends when the address leaves the network;
  \<open>None\<close> is a loop that never ends. \<open>str\<close> is \<^verbatim>\<open>IP.String\<close>.
\<close>

partial_function (option) expand_loop ::
  "(netIP \<Rightarrow> string) \<Rightarrow> IPNet \<Rightarrow> netIP \<Rightarrow> string list \<Rightarrow> string list option" where
  "expand_loop str ipnet ip ips =
     (if Contains ipnet ip then expand_loop str ipnet (incIP ip) (ips @ [str ip])
      else Some ips)"

text \<open>
  expandCIDR. \<open>parse\<close> is \<^verbatim>\<open>net.ParseCIDR\<close>, returning its error or the address and
  the network. The result is the error of the parse (\<open>Inl\<close>) or the list of addresses.
\<close>

datatype parse_error = ParseError string

definition expandCIDR ::
  "(string \<Rightarrow> parse_error + netIP \<times> IPNet) \<Rightarrow> (netIP \<Rightarrow> string) \<Rightarrow> string \<Rightarrow>
   (parse_error + string list) option" where
  "expandCIDR parse str cidr =
     (case parse cidr of
        Inl err \<Rightarrow> Some (Inl err)
      | Inr (ip, ipnet) \<Rightarrow>
          (case expand_loop str ipnet (IP_Mask ip (Mask ipnet)) [] of
             None \<Rightarrow> None
           | Some ips \<Rightarrow>
               Some (Inr (if length ips > 2 then drop 1 (take (length ips - 1) ips) else ips))))"

subsection \<open>Addresses as numbers\<close>

text \<open>
  The number that the bytes of an address denote, most significant byte first; the
  4-byte address of a number; and the increment of incIP read on the reversed bytes.
\<close>

fun ip_val :: "netIP \<Rightarrow> nat" where
  "ip_val [] = 0"
| "ip_val (b # bs) = unat b * 256 ^ length bs + ip_val bs"

definition ip4_of :: "nat \<Rightarrow> netIP" where
  "ip4_of n = [of_nat (n div 2 ^ 24), of_nat (n div 2 ^ 16), of_nat (n div 2 ^ 8), of_nat n]"

fun inc_le :: "netIP \<Rightarrow> netIP" where
  "inc_le [] = []"
| "inc_le (b # bs) = (if b + 1 > 0 then (b + 1) # bs else 0 # inc_le bs)"

text \<open>
  The block of an IPv4 prefix with address bytes \<open>a\<close> and \<open>ones\<close> leading mask bits: its
  first address as a number, and its size.
\<close>

definition block_base :: "netIP \<Rightarrow> nat \<Rightarrow> nat" where
  "block_base a ones = (ip_val a div 2 ^ (32 - ones)) * 2 ^ (32 - ones)"

definition block_size :: "nat \<Rightarrow> nat" where
  "block_size ones = 2 ^ (32 - ones)"

text \<open>
  For the examples: the dotted decimal text of a 4-byte address, as \<^verbatim>\<open>IP.String\<close>
  prints it, and a parse that knows the prefixes of the examples.
\<close>

fun decimal_digits :: "nat \<Rightarrow> nat \<Rightarrow> string" where
  "decimal_digits 0 n = []"
| "decimal_digits (Suc fuel) n =
     (if n < 10 then [char_of (48 + n)]
      else decimal_digits fuel (n div 10) @ [char_of (48 + n mod 10)])"

definition ubtoa :: "8 word \<Rightarrow> string" where
  "ubtoa b = decimal_digits 3 (unat b)"

definition dotted :: "netIP \<Rightarrow> string" where
  "dotted ip =
     (case ip of
        [a, b, c, d] \<Rightarrow> ubtoa a @ ''.'' @ ubtoa b @ ''.'' @ ubtoa c @ ''.'' @ ubtoa d
      | _ \<Rightarrow> ''?'')"

definition parse_examples :: "string \<Rightarrow> parse_error + netIP \<times> IPNet" where
  "parse_examples cidr =
     (if cidr = ''192.168.1.0/30'' then Inr (parsed_v4 [192, 168, 1, 0] 30)
      else if cidr = ''10.0.0.7/31'' then Inr (parsed_v4 [10, 0, 0, 7] 31)
      else if cidr = ''0.0.0.0/0'' then Inr (parsed_v4 [0, 0, 0, 0] 0)
      else Inl (ParseError cidr))"

section \<open>The ping sweep (internal/probes/ping.go)\<close>

text \<open>
  The struct \<^verbatim>\<open>model.ScanHost\<close>; \<open>'f\<close> stands for \<^verbatim>\<open>float64\<close>.
\<close>

record 'f ScanHost =
  host_ID :: int
  IP :: string
  Hostname :: string
  Alive :: bool
  LatencyMs :: 'f
  LastSeen :: time

record PingProbe =
  ping_concurrency :: int
  ping_timeout :: duration

definition NewPingProbe :: "int \<Rightarrow> duration \<Rightarrow> PingProbe" where
  "NewPingProbe concurrency tmo =
     \<lparr>ping_concurrency = (if concurrency \<le> 0 then 50 else concurrency),
      ping_timeout = (if sint tmo \<le> 0 then 2 * Second else tmo)\<rparr>"

subsection \<open>isConnectionRefused\<close>

text \<open>
  An error of a dial: a \<^verbatim>\<open>*net.OpError\<close> with the text of its \<^verbatim>\<open>Error()\<close> and the
  error it wraps, or an error of another type.
\<close>

datatype net_error = OpError string "net_error option" | OtherError string

definition containsSubstring :: "string \<Rightarrow> string \<Rightarrow> bool" where
  "containsSubstring s substr =
     list_ex (\<lambda>i. take (length substr) (drop i s) = substr)
       [0 ..< nat (int (length s) - int (length substr) + 1)]"

definition contains :: "string \<Rightarrow> string \<Rightarrow> bool" where
  "contains s substr =
     (length s \<ge> length substr \<and> (s = substr \<or> length s > 0 \<and> containsSubstring s substr))"

definition isConnectionRefused :: "net_error \<Rightarrow> bool" where
  "isConnectionRefused err =
     (case err of
        OpError text inner \<Rightarrow>
          (let errStr = (case inner of Some (OpError text' _) \<Rightarrow> text' | _ \<Rightarrow> text)
           in contains errStr ''connection refused'' \<or> contains errStr ''refused'' \<or>
              contains errStr ''reset'')
      | OtherError _ \<Rightarrow> False)"

subsection \<open>pingHost\<close>

text \<open>
  The network as pingHost sees it: \<open>dial ip port\<close> is the outcome of
  \<^verbatim>\<open>net.DialTimeout("tcp", ip:port, timeout)\<close>, the error (\<open>None\<close> for a connection) and
  the microseconds that passed; \<open>LookupAddr\<close> is the reverse lookup; \<open>clock ip\<close> is
  \<^verbatim>\<open>time.Now()\<close> when the ping of \<open>ip\<close> starts; \<open>to_ms us\<close> is the float
  \<^verbatim>\<open>float64(us) / 1000.0\<close>.
\<close>

record 'f network =
  dial :: "string \<Rightarrow> int \<Rightarrow> net_error option \<times> int"
  LookupAddr :: "string \<Rightarrow> net_error + string list"
  clock :: "string \<Rightarrow> time"
  to_ms :: "int \<Rightarrow> 'f"

definition ping_ports :: "int list" where
  "ping_ports = [80, 443, 22, 21, 445, 139]"

text \<open>
  The loop over the ports (lines 99-117), from the ports still to try; it returns the
  host and the ports it dialled, in order.
\<close>

fun try_ports :: "'f network \<Rightarrow> string \<Rightarrow> int list \<Rightarrow> 'f ScanHost \<Rightarrow> 'f ScanHost \<times> int list" where
  "try_ports net ip [] host = (host, [])"
| "try_ports net ip (port # rest) host =
     (let (err, us) = dial net ip port;
          latency = to_ms net us
      in if err = None then (host\<lparr>Alive := True, LatencyMs := latency\<rparr>, [port])
         else if isConnectionRefused (the err)
         then (host\<lparr>Alive := True, LatencyMs := latency\<rparr>, [port])
         else (let (host', dialled) = try_ports net ip rest host
               in (host', port # dialled)))"

definition pingHost_trace :: "('f::zero) network \<Rightarrow> string \<Rightarrow> 'f ScanHost \<times> int list" where
  "pingHost_trace net ip =
     (let host = \<lparr>host_ID = 0, IP = ip, Hostname = [], Alive = False, LatencyMs = 0,
                  LastSeen = clock net ip\<rparr>;
          (host', dialled) = try_ports net ip ping_ports host
      in (if Alive host' then
            (case LookupAddr net ip of
               Inr names \<Rightarrow> if length names > 0 then host'\<lparr>Hostname := names ! 0\<rparr> else host'
             | Inl err \<Rightarrow> host')
          else host',
          dialled))"

definition pingHost :: "('f::zero) network \<Rightarrow> string \<Rightarrow> 'f ScanHost" where
  "pingHost net ip = fst (pingHost_trace net ip)"

text \<open>A port qualifies when its dial connects or fails with a refusal or reset.\<close>

definition qualifies :: "'f network \<Rightarrow> string \<Rightarrow> int \<Rightarrow> bool" where
  "qualifies net ip port =
     (case fst (dial net ip port) of None \<Rightarrow> True | Some err \<Rightarrow> isConnectionRefused err)"

subsection \<open>The worker pool of SweepSubnet and ScanHost\<close>

text \<open>
  Both functions run the same pool: a sender goroutine that puts the items on the
  channel \<^verbatim>\<open>jobs\<close> and closes it, \<open>n\<close> worker goroutines that take items and put results
  on the channel \<^verbatim>\<open>results\<close>, a goroutine that closes \<^verbatim>\<open>results\<close> once all workers
  have left, and the caller, which collects what \<^verbatim>\<open>results\<close> delivers. Both channels
  have room for one entry per item, so no send blocks. A worker is waiting for an item
  (\<open>Idle\<close>), has received one and is about to poll the context (\<open>Holding\<close>), is
  working on one (\<open>Busy\<close>), or has left (\<open>Exited\<close>).
\<close>

datatype 'a worker = Idle | Holding 'a | Busy 'a | Exited

record ('a, 'r) pool =
  to_send :: "'a list"
  jobs :: "'a list"
  jobs_closed :: bool
  workers :: "'a worker list"
  attempted :: "'a list"
  results :: "'r list"
  cancelled :: bool

definition pool_init :: "'a list \<Rightarrow> int \<Rightarrow> ('a, 'r) pool" where
  "pool_init items concurrency =
     \<lparr>to_send = items, jobs = [], jobs_closed = False,
      workers = replicate (nat concurrency) Idle, attempted = [], results = [],
      cancelled = False\<rparr>"

text \<open>
  The steps of the goroutines, each atomic:
  \<^item> \<open>Send\<close>: the sender puts its next item on \<^verbatim>\<open>jobs\<close>;
  \<^item> \<open>SkipSend\<close>: the sender's \<^verbatim>\<open>select\<close> takes the case of the cancelled context,
    whose \<^verbatim>\<open>break\<close> ends the \<^verbatim>\<open>select\<close> only: the item is not sent and the loop goes on;
  \<^item> \<open>Close\<close>: the sender, out of items, closes \<^verbatim>\<open>jobs\<close>;
  \<^item> \<open>Take w\<close>: the idle worker \<open>w\<close> receives the next item;
  \<^item> \<open>Poll w\<close>: worker \<open>w\<close> polls the context: it leaves when the context is cancelled
    (dropping its item) and starts on the item otherwise;
  \<^item> \<open>Finish w\<close>: worker \<open>w\<close> ends its call of \<open>fn\<close> on its item and sends the result,
    if \<open>fn\<close> gave one, on \<^verbatim>\<open>results\<close>;
  \<^item> \<open>Exit w\<close>: the idle worker \<open>w\<close> finds \<^verbatim>\<open>jobs\<close> closed and empty and leaves;
  \<^item> \<open>Cancel\<close>: the context is cancelled.
  The field \<open>attempted\<close> records the items on which \<open>fn\<close> was called. A step that is not
  enabled gives \<open>None\<close>.
\<close>

datatype pool_event = Send | SkipSend | Close | Take nat | Poll nat | Finish nat | Exit nat | Cancel

fun pool_step :: "('a \<Rightarrow> 'r option) \<Rightarrow> pool_event \<Rightarrow> ('a, 'r) pool \<Rightarrow> ('a, 'r) pool option" where
  "pool_step fn Send p =
     (case to_send p of
        [] \<Rightarrow> None
      | x # xs \<Rightarrow> Some (p\<lparr>to_send := xs, jobs := jobs p @ [x]\<rparr>))"
| "pool_step fn SkipSend p =
     (case to_send p of
        [] \<Rightarrow> None
      | x # xs \<Rightarrow> if cancelled p then Some (p\<lparr>to_send := xs\<rparr>) else None)"
| "pool_step fn Close p =
     (if to_send p = [] \<and> \<not> jobs_closed p then Some (p\<lparr>jobs_closed := True\<rparr>) else None)"
| "pool_step fn (Take w) p =
     (if w < length (workers p) \<and> workers p ! w = Idle then
        (case jobs p of
           [] \<Rightarrow> None
         | x # xs \<Rightarrow> Some (p\<lparr>jobs := xs, workers := (workers p)[w := Holding x]\<rparr>))
      else None)"
| "pool_step fn (Poll w) p =
     (if w < length (workers p) then
        (case workers p ! w of
           Holding x \<Rightarrow>
             if cancelled p then Some (p\<lparr>workers := (workers p)[w := Exited]\<rparr>)
             else Some (p\<lparr>workers := (workers p)[w := Busy x]\<rparr>)
         | _ \<Rightarrow> None)
      else None)"
| "pool_step fn (Finish w) p =
     (if w < length (workers p) then
        (case workers p ! w of
           Busy x \<Rightarrow>
             Some (p\<lparr>workers := (workers p)[w := Idle], attempted := attempted p @ [x],
                     results := results p @ (case fn x of None \<Rightarrow> [] | Some r \<Rightarrow> [r])\<rparr>)
         | _ \<Rightarrow> None)
      else None)"
| "pool_step fn (Exit w) p =
     (if w < length (workers p) \<and> workers p ! w = Idle \<and> jobs p = [] \<and> jobs_closed p
      then Some (p\<lparr>workers := (workers p)[w := Exited]\<rparr>)
      else None)"
| "pool_step fn Cancel p = Some (p\<lparr>cancelled := True\<rparr>)"

fun pool_steps :: "('a \<Rightarrow> 'r option) \<Rightarrow> pool_event list \<Rightarrow> ('a, 'r) pool \<Rightarrow> ('a, 'r) pool option" where
  "pool_steps fn [] p = Some p"
| "pool_steps fn (e # es) p =
     (case pool_step fn e p of None \<Rightarrow> None | Some p' \<Rightarrow> pool_steps fn es p')"

text \<open>
  All workers have left: \<^verbatim>\<open>wg.Wait()\<close> returns, \<^verbatim>\<open>results\<close> is closed and the
  caller's loop over it ends.
\<close>

definition pool_done :: "('a, 'r) pool \<Rightarrow> bool" where
  "pool_done p = (\<forall>w \<in> set (workers p). w = Exited)"

text \<open>
  A run of the pool to its end under the schedule \<open>sched\<close>: the final state, or \<open>None\<close>
  when \<open>sched\<close> is not a run that lets the caller return.
\<close>

definition pool_run ::
  "('a \<Rightarrow> 'r option) \<Rightarrow> 'a list \<Rightarrow> int \<Rightarrow> pool_event list \<Rightarrow> ('a, 'r) pool option" where
  "pool_run fn items concurrency sched =
     (case pool_steps fn sched (pool_init items concurrency) of
        None \<Rightarrow> None
      | Some p \<Rightarrow> if pool_done p then Some p else None)"

subsection \<open>SweepSubnet\<close>

datatype sweep_error = InvalidCIDR parse_error

definition SweepSubnet ::
  "(string \<Rightarrow> parse_error + netIP \<times> IPNet) \<Rightarrow> (netIP \<Rightarrow> string) \<Rightarrow> ('f::zero) network \<Rightarrow>
   PingProbe \<Rightarrow> string \<Rightarrow> pool_event list \<Rightarrow> (sweep_error + 'f ScanHost list) option" where
  "SweepSubnet parse str net p cidr sched =
     (case expandCIDR parse str cidr of
        None \<Rightarrow> None
      | Some (Inl err) \<Rightarrow> Some (Inl (InvalidCIDR err))
      | Some (Inr ips) \<Rightarrow>
          (case pool_run (\<lambda>ip. Some (pingHost net ip)) ips (ping_concurrency p) sched of
             None \<Rightarrow> None
           | Some final \<Rightarrow> Some (Inr (results final))))"

text \<open>
  For the examples: a network in which the host 10.0.0.5 refuses connections on port 22
  after 850 microseconds and lets every other dial time out, 10.0.0.6 does not answer at
  all, and no address has a name.
\<close>

definition example_net :: "rat network" where
  "example_net =
     \<lparr>dial = (\<lambda>ip port.
         if ip = ''10.0.0.5'' \<and> port = 22
         then (Some (OpError ''dial tcp 10.0.0.5:22: connect: connection refused'' None), 850)
         else (Some (OpError ''dial tcp: i/o timeout'' None), 2000000)),
      LookupAddr = (\<lambda>ip. Inl (OtherError ''no such host'')),
      clock = (\<lambda>ip. 1000),
      to_ms = (\<lambda>us. of_int us / 1000)\<rparr>"

subsection \<open>The invariant of the pool\<close>

text \<open>The items that the workers hold, and the items not yet handed to \<open>fn\<close>.\<close>

fun hand :: "'a worker \<Rightarrow> 'a multiset" where
  "hand (Holding x) = {#x#}"
| "hand (Busy x) = {#x#}"
| "hand Idle = {#}"
| "hand Exited = {#}"

definition pending :: "('a, 'r) pool \<Rightarrow> 'a multiset" where
  "pending p = mset (to_send p) + mset (jobs p) + sum_list (map hand (workers p))"

text \<open>
  In every state of a run over \<open>items\<close> with \<open>n\<close> workers: the results are the results
  of the calls of \<open>fn\<close>, in the order of the calls; every item was handed to \<open>fn\<close> at most
  once, and while the context is live no item is lost; a closed channel has nothing
  left to send; and a worker has left a live pool only after the channel was closed and
  drained.
\<close>

definition pool_inv :: "('a \<Rightarrow> 'r option) \<Rightarrow> 'a list \<Rightarrow> nat \<Rightarrow> ('a, 'r) pool \<Rightarrow> bool" where
  "pool_inv fn items n p =
     (length (workers p) = n \<and>
      results p = List.map_filter fn (attempted p) \<and>
      mset (attempted p) + pending p \<subseteq># mset items \<and>
      (\<not> cancelled p \<longrightarrow> mset (attempted p) + pending p = mset items) \<and>
      (jobs_closed p \<longrightarrow> to_send p = []) \<and>
      (\<not> cancelled p \<and> Exited \<in> set (workers p) \<longrightarrow> jobs_closed p \<and> jobs p = []))"

text \<open>
  A schedule of a pool with \<open>k\<close> items and \<open>n\<close> workers in which the context stays live:
  the sender sends everything and closes the channel, the first worker handles the
  items one after the other, and then all workers leave.
\<close>

definition sequential :: "nat \<Rightarrow> nat \<Rightarrow> pool_event list" where
  "sequential k n =
     replicate k Send @ [Close] @ concat (replicate k [Take 0, Poll 0, Finish 0]) @
     map Exit [0 ..< n]"

section \<open>The port scanner (internal/probes/portscan.go)\<close>

record PortScanner =
  scan_concurrency :: int
  scan_timeout :: duration
  ports :: "int list"

definition DefaultPorts :: "int list" where
  "DefaultPorts =
     [21, 22, 23, 25, 53, 80, 110, 111, 135, 139,
      143, 443, 445, 993, 995, 1723, 3306, 3389, 5432, 5900,
      8080, 8443, 8888, 27017, 6379, 11211, 1433, 1521, 5984, 9200,
      2181, 9092, 6443, 10250, 2379, 4443, 7443, 8000, 8001, 8002,
      9000, 9001, 9090, 9091, 9443, 10000, 10443, 15672, 27018, 27019]"

definition NewPortScanner :: "int \<Rightarrow> duration \<Rightarrow> int list \<Rightarrow> PortScanner" where
  "NewPortScanner concurrency tmo ps =
     \<lparr>scan_concurrency = (if concurrency \<le> 0 then 20 else concurrency),
      scan_timeout = (if sint tmo \<le> 0 then 3 * Second else tmo),
      ports = (if length ps = 0 then DefaultPorts else ps)\<rparr>"

definition serviceNames :: "(int \<times> string) list" where
  "serviceNames =
     [(21, ''ftp''), (22, ''ssh''), (23, ''telnet''), (25, ''smtp''), (53, ''dns''),
      (80, ''http''), (110, ''pop3''), (111, ''rpc''), (135, ''msrpc''), (139, ''netbios''),
      (143, ''imap''), (443, ''https''), (445, ''smb''), (993, ''imaps''), (995, ''pop3s''),
      (1433, ''mssql''), (1521, ''oracle''), (1723, ''pptp''), (3306, ''mysql''), (3389, ''rdp''),
      (5432, ''postgresql''), (5900, ''vnc''), (5984, ''couchdb''), (6379, ''redis''),
      (8080, ''http-alt''), (8443, ''https-alt''), (8888, ''http-alt''), (9092, ''kafka''),
      (9200, ''elasticsearch''), (11211, ''memcached''), (27017, ''mongodb'')]"

definition getServiceName :: "int \<Rightarrow> string" where
  "getServiceName port =
     (case map_of serviceNames port of Some name \<Rightarrow> name | None \<Rightarrow> ''unknown'')"

record ScanResult =
  res_Port :: int
  res_State :: string
  res_Service :: string
  res_Banner :: string

record ScanPort =
  port_ID :: int
  HostID :: int
  Port :: int
  Protocol :: string
  Service :: string
  State :: string
  Banner :: string
  port_LastSeen :: time

text \<open>
  A connection, as grabBanner uses it: what its first \<^verbatim>\<open>Read\<close> into a buffer of 1024
  bytes returns, an error or the bytes that arrived.
\<close>

datatype conn = Conn "net_error + string"

definition grabBanner :: "conn \<Rightarrow> string" where
  "grabBanner c =
     (case c of
        Conn (Inl err) \<Rightarrow> []
      | Conn (Inr bytes) \<Rightarrow>
          (let buf = take 1024 bytes
           in if length buf = 0 then []
              else if length buf > 200 then take 200 buf else buf))"

text \<open>
  scanPort: \<open>connect host port\<close> is the outcome of the dial, an error or a connection.
  A nil result is \<open>None\<close>.
\<close>

definition scanPort :: "(string \<Rightarrow> int \<Rightarrow> net_error + conn) \<Rightarrow> string \<Rightarrow> int \<Rightarrow> ScanResult option" where
  "scanPort connect host port =
     (case connect host port of
        Inl err \<Rightarrow> None
      | Inr c \<Rightarrow>
          Some \<lparr>res_Port = port, res_State = ''open'', res_Service = getServiceName port,
                res_Banner = grabBanner c\<rparr>)"

text \<open>
  The caller's loop over \<^verbatim>\<open>results\<close> (lines 111-121); \<open>now k\<close> is \<^verbatim>\<open>time.Now()\<close> when
  the \<open>k\<close>-th result is received.
\<close>

fun collect_ports :: "(nat \<Rightarrow> time) \<Rightarrow> nat \<Rightarrow> ScanResult list \<Rightarrow> ScanPort list" where
  "collect_ports now k [] = []"
| "collect_ports now k (r # rs) =
     \<lparr>port_ID = 0, HostID = 0, Port = res_Port r, Protocol = ''tcp'', Service = res_Service r,
      State = res_State r, Banner = res_Banner r, port_LastSeen = now k\<rparr>
     # collect_ports now (Suc k) rs"

text \<open>
  ScanHost under a schedule of its goroutines; its error result is nil on every path.
  \<open>ScanHost_dials\<close> lists the ports on which scanPort was called during the run.
\<close>

definition ScanHost ::
  "(string \<Rightarrow> int \<Rightarrow> net_error + conn) \<Rightarrow> (nat \<Rightarrow> time) \<Rightarrow> PortScanner \<Rightarrow> string \<Rightarrow>
   pool_event list \<Rightarrow> ScanPort list option" where
  "ScanHost connect now s host sched =
     (case pool_run (scanPort connect host) (ports s) (scan_concurrency s) sched of
        None \<Rightarrow> None
      | Some final \<Rightarrow> Some (collect_ports now 0 (results final)))"

definition ScanHost_dials ::
  "(string \<Rightarrow> int \<Rightarrow> net_error + conn) \<Rightarrow> PortScanner \<Rightarrow> string \<Rightarrow> pool_event list \<Rightarrow>
   int list option" where
  "ScanHost_dials connect s host sched =
     map_option attempted
       (pool_run (scanPort connect host) (ports s) (scan_concurrency s) sched)"

text \<open>The dial of \<open>port\<close> on \<open>host\<close> connects.\<close>

definition connect_ok :: "(string \<Rightarrow> int \<Rightarrow> net_error + conn) \<Rightarrow> string \<Rightarrow> int \<Rightarrow> bool" where
  "connect_ok connect host port = (case connect host port of Inl err \<Rightarrow> False | Inr c \<Rightarrow> True)"

text \<open>
  For the examples: a host on which only port 22 accepts connections and greets with a
  banner.
\<close>

definition only_ssh :: "string \<Rightarrow> int \<Rightarrow> net_error + conn" where
  "only_ssh host port =
     (if port = 22 then Inr (Conn (Inr ''SSH-2.0-OpenSSH_9.6''))
      else Inl (OpError ''dial tcp: i/o timeout'' None))"

definition tick :: "nat \<Rightarrow> time" where
  "tick k = 1000 + int k"

section \<open>Properties of the scheduler\<close>

lemma sint_go_div2: "sint (go_div a 2) = sint a sdiv 2"
proof -
  have b: "- (2 ^ 63) \<le> sint a" "sint a < 2 ^ 63"
    using sint_ge [of a] sint_lt [of a] by simp_all
  have "- (2 ^ 63) \<le> sint a sdiv 2 \<and> sint a sdiv 2 < 2 ^ 63"
    using b by (auto simp: signed_divide_int_def sgn_if)
  then show ?thesis
    unfolding go_div_def
    by (simp add: signed_take_bit_int_eq_self Word.sint_sbintrunc' del: sint_numeral)
qed

lemma sint_of_nat_small: "n < 2 ^ 63 \<Longrightarrow> sint (of_nat n :: 64 word) = int n"
proof -
  assume "n < 2 ^ 63"
  then have "int n < 2 ^ 63" by (metis of_nat_less_iff of_nat_numeral of_nat_power)
  then have "(int n + 2 ^ 63) mod 2 ^ 64 = int n + 2 ^ 63" by simp
  moreover have "sint (of_nat n :: 64 word) = sint (word_of_int (int n) :: 64 word)" by simp
  ultimately show ?thesis by (simp only: int_word_sint) simp
qed

lemma runJob_finish_ok:
  "runJob_finish j None now =
     j\<lparr>running := False, lastError := None, nextRun := now + sint (Interval j)\<rparr>"
  by (simp add: runJob_finish_def time_Add_def)

lemma runJob_finish_failed:
  "runJob_finish j (Some e) now =
     j\<lparr>running := False, lastError := Some e, errorCount := errorCount j + 1,
       nextRun := now + sint (Interval j) sdiv 2\<rparr>"
  by (simp add: runJob_finish_def time_Add_def sint_go_div2)

lemma runJob_failed:
  "\<not> running j \<Longrightarrow>
   \<not> running (runJob j t0 (Some e) t1) \<and>
   errorCount (runJob j t0 (Some e) t1) = errorCount j + 1"
  by (simp add: runJob_def runJob_begin_def runJob_finish_failed)

lemma runJob_ok:
  "\<not> running j \<Longrightarrow>
   \<not> running (runJob j t0 None t1) \<and> errorCount (runJob j t0 None t1) = errorCount j"
  by (simp add: runJob_def runJob_begin_def runJob_finish_ok)

lemma executions_all_failed:
  "\<not> running j \<Longrightarrow> \<forall>r \<in> set rs. fst (snd r) \<noteq> None \<Longrightarrow>
   errorCount (executions j rs) = errorCount j + of_nat (length rs)"
proof (induction rs arbitrary: j)
  case Nil
  then show ?case by simp
next
  case (Cons r rs)
  obtain t0 err t1 where r: "r = (t0, err, t1)" by (cases r)
  with Cons.prems obtain e where e: "err = Some e" by auto
  let ?j = "runJob j t0 err t1"
  have j': "\<not> running ?j" "errorCount ?j = errorCount j + 1"
    using Cons.prems(1) e by (simp_all add: runJob_failed)
  from Cons.IH [OF j'(1)] Cons.prems(2) j'(2) r show ?case by simp
qed

lemma executions_all_ok:
  "\<not> running j \<Longrightarrow> \<forall>r \<in> set rs. fst (snd r) = None \<Longrightarrow>
   errorCount (executions j rs) = errorCount j"
proof (induction rs arbitrary: j)
  case Nil
  then show ?case by simp
next
  case (Cons r rs)
  obtain t0 err t1 where r: "r = (t0, err, t1)" by (cases r)
  with Cons.prems have e: "err = None" by auto
  let ?j = "runJob j t0 err t1"
  have j': "\<not> running ?j" "errorCount ?j = errorCount j"
    using Cons.prems(1) e by (simp_all add: runJob_ok)
  from Cons.IH [OF j'(1)] Cons.prems(2) j'(2) r show ?case by simp
qed

text \<open>
  C1. When an execution completes with a nil error, the wrapper sets lastError to nil
  and nextRun to the completion time plus the interval, and leaves errorCount alone;
  when it completes with an error, the wrapper records the error, adds exactly one to
  errorCount (in Go's 64-bit arithmetic) and sets nextRun to the completion time plus
  interval/2 (truncated towards zero). Hence for a Job that starts idle with errorCount 0:
  if every execution fails, errorCount is \<open>k\<close> after the \<open>k\<close>-th execution, for as long
  as \<open>k\<close> fits Go's int, so it grows strictly with every execution; if every execution
  succeeds, errorCount stays 0.
\<close>

theorem runJob_completion_updates_job:
  fixes j :: Job and rs :: "(time \<times> go_error option \<times> time) list"
  shows
    "runJob_finish j None now =
       j\<lparr>running := False, lastError := None, nextRun := now + sint (Interval j)\<rparr>
     \<and> runJob_finish j (Some e) now =
       j\<lparr>running := False, lastError := Some e, errorCount := errorCount j + 1,
         nextRun := now + sint (Interval j) sdiv 2\<rparr>
     \<and> (\<not> running j \<and> errorCount j = 0 \<and> (\<forall>r \<in> set rs. fst (snd r) \<noteq> None) \<and>
        k \<le> length rs \<and> length rs < 2 ^ 63 \<longrightarrow>
          sint (errorCount (executions j (take k rs))) = int k)
     \<and> (\<not> running j \<and> errorCount j = 0 \<and> (\<forall>r \<in> set rs. fst (snd r) = None) \<longrightarrow>
          errorCount (executions j rs) = 0)"
proof (intro conjI)
  show "runJob_finish j None now =
       j\<lparr>running := False, lastError := None, nextRun := now + sint (Interval j)\<rparr>"
    by (rule runJob_finish_ok)
  show "runJob_finish j (Some e) now =
       j\<lparr>running := False, lastError := Some e, errorCount := errorCount j + 1,
         nextRun := now + sint (Interval j) sdiv 2\<rparr>"
    by (rule runJob_finish_failed)
  show "\<not> running j \<and> errorCount j = 0 \<and> (\<forall>r \<in> set rs. fst (snd r) \<noteq> None) \<and>
     k \<le> length rs \<and> length rs < 2 ^ 63 \<longrightarrow>
       sint (errorCount (executions j (take k rs))) = int k"
  proof (intro impI, elim conjE)
    assume a: "\<not> running j" "errorCount j = 0" "\<forall>r \<in> set rs. fst (snd r) \<noteq> None"
      "k \<le> length rs" "length rs < 2 ^ 63"
    from a(3) have "\<forall>r \<in> set (take k rs). fst (snd r) \<noteq> None"
      by (meson in_set_takeD)
    with a(1) have "errorCount (executions j (take k rs)) = errorCount j + of_nat (length (take k rs))"
      by (rule executions_all_failed)
    with a(2,4) have "errorCount (executions j (take k rs)) = of_nat k" by simp
    moreover from a(4,5) have "k < 2 ^ 63" by simp
    ultimately show "sint (errorCount (executions j (take k rs))) = int k"
      by (simp add: sint_of_nat_small)
  qed
  show "\<not> running j \<and> errorCount j = 0 \<and> (\<forall>r \<in> set rs. fst (snd r) = None) \<longrightarrow>
       errorCount (executions j rs) = 0"
    using executions_all_ok [of j rs] by simp
qed

text \<open>
  An instance: the Job \<^verbatim>\<open>ip_check\<close> with an interval of 7 ns, as registerJobs creates
  it, completing at instant 100; two failing executions; two successful ones.
\<close>

theorem runJob_completion_updates_job_witness:
  "nextRun (runJob_finish (Job_literal ''ip_check'' 7) None 100) = 107
   \<and> lastError (runJob_finish (Job_literal ''ip_check'' 7) None 100) = None
   \<and> nextRun (runJob_finish (Job_literal ''ip_check'' 7) (Some (ProbeError ''down'')) 100) = 103
   \<and> errorCount (runJob_finish (Job_literal ''ip_check'' 7) (Some (ProbeError ''down'')) 100) = 1
   \<and> sint (errorCount (executions (Job_literal ''ip_check'' 7)
        (take 1 [(0, Some (ProbeError ''down''), 1), (5, Some DeadlineExceeded, 9)]))) = 1
   \<and> sint (errorCount (executions (Job_literal ''ip_check'' 7)
        (take 2 [(0, Some (ProbeError ''down''), 1), (5, Some DeadlineExceeded, 9)]))) = 2
   \<and> errorCount (executions (Job_literal ''ip_check'' 7) [(0, None, 1), (5, None, 9)]) = 0"
proof -
  let ?j = "Job_literal ''ip_check'' 7"
  let ?bad = "[(0, Some (ProbeError ''down''), 1), (5, Some DeadlineExceeded, 9)]
                :: (time \<times> go_error option \<times> time) list"
  let ?good = "[(0, None, 1), (5, None, 9)] :: (time \<times> go_error option \<times> time) list"
  have idle: "\<not> running ?j" "errorCount ?j = 0" by (simp_all add: Job_literal_def)
  have half: "sint (7 :: 64 word) sdiv 2 = 3" by (simp add: signed_divide_int_def)
  note a = runJob_completion_updates_job [of ?j 100 "ProbeError ''down''" ?bad 1]
  note b = runJob_completion_updates_job [of ?j 100 "ProbeError ''down''" ?bad 2]
  note c = runJob_completion_updates_job [of ?j 100 "ProbeError ''down''" ?good 0]
  from a have "nextRun (runJob_finish ?j None 100) = 107"
      "lastError (runJob_finish ?j None 100) = None"
      "nextRun (runJob_finish ?j (Some (ProbeError ''down'')) 100) = 103"
      "errorCount (runJob_finish ?j (Some (ProbeError ''down'')) 100) = 1"
    using half by (simp_all add: Job_literal_def)
  moreover from a idle have "sint (errorCount (executions ?j (take 1 ?bad))) = 1" by simp
  moreover from b idle have "sint (errorCount (executions ?j (take 2 ?bad))) = 2" by simp
  moreover from c idle have "errorCount (executions ?j ?good) = 0" by simp
  ultimately show ?thesis by blast
qed

lemma list_all_update:
  "list_all P s \<Longrightarrow> P x \<Longrightarrow> list_all P (s[i := x])"
  by (cases "i < length s") (auto simp: list_all_length nth_list_update)

lemma GetJob_less: "GetJob s n = Some i \<Longrightarrow> i < length s"
  by (induction s arbitrary: i) (auto split: if_splits)

lemma step_one_in_flight:
  assumes "step e s = Some s'" and "list_all one_in_flight s"
  shows "list_all one_in_flight s'"
proof (cases e)
  case (Register n d now)
  with assms show ?thesis by (auto simp: AddJob_def one_in_flight_def Job_literal_def)
next
  case (Check i now)
  with assms have i: "i < length s" by (simp split: if_splits)
  with assms have "one_in_flight (s ! i)" by (simp add: list_all_length)
  then have "one_in_flight ((s ! i)\<lparr>spawned := Suc (spawned (s ! i))\<rparr>)"
    by (simp add: one_in_flight_def)
  then have "list_all one_in_flight (s[i := (s ! i)\<lparr>spawned := Suc (spawned (s ! i))\<rparr>])"
    using assms(2) by (rule list_all_update [rotated])
  with assms Check i show ?thesis by (simp split: if_splits)
next
  case (Launch i now)
  with assms have i: "i < length s" "0 < spawned (s ! i)" by (simp_all split: if_splits)
  with assms have p: "one_in_flight (s ! i)" by (simp add: list_all_length)
  show ?thesis
  proof (cases "running (job (s ! i))")
    case True
    from p have "one_in_flight ((s ! i)\<lparr>spawned := spawned (s ! i) - 1\<rparr>)"
      by (simp add: one_in_flight_def)
    then have "list_all one_in_flight (s[i := (s ! i)\<lparr>spawned := spawned (s ! i) - 1\<rparr>])"
      using assms(2) by (rule list_all_update [rotated])
    with assms Launch i True show ?thesis by (simp add: runJob_begin_def)
  next
    case False
    with p have "one_in_flight
        ((s ! i)\<lparr>job := (job (s ! i))\<lparr>running := True, lastRun := now\<rparr>,
                  spawned := spawned (s ! i) - 1, executing := Suc (executing (s ! i))\<rparr>)"
      by (simp add: one_in_flight_def)
    then have "list_all one_in_flight
        (s[i := (s ! i)\<lparr>job := (job (s ! i))\<lparr>running := True, lastRun := now\<rparr>,
                          spawned := spawned (s ! i) - 1, executing := Suc (executing (s ! i))\<rparr>])"
      using assms(2) by (rule list_all_update [rotated])
    with assms Launch i False show ?thesis by (simp add: runJob_begin_def)
  qed
next
  case (Complete i err now)
  with assms have i: "i < length s" "0 < executing (s ! i)" by (simp_all split: if_splits)
  with assms have p: "one_in_flight (s ! i)" by (simp add: list_all_length)
  have "running (runJob_finish (job (s ! i)) err now) = False"
    by (simp add: runJob_finish_def split: option.splits)
  with p i have "one_in_flight
      ((s ! i)\<lparr>job := runJob_finish (job (s ! i)) err now, executing := executing (s ! i) - 1\<rparr>)"
    by (simp add: one_in_flight_def)
  then have "list_all one_in_flight
      (s[i := (s ! i)\<lparr>job := runJob_finish (job (s ! i)) err now,
                        executing := executing (s ! i) - 1\<rparr>])"
    using assms(2) by (rule list_all_update [rotated])
  with assms Complete i show ?thesis by simp
next
  case (Trigger n now)
  show ?thesis
  proof (cases "GetJob s n")
    case None
    with assms Trigger show ?thesis by (simp add: TriggerJob_def)
  next
    case (Some i)
    then have "i < length s" by (rule GetJob_less)
    with assms have "one_in_flight (s ! i)" by (simp add: list_all_length)
    then have "one_in_flight ((s ! i)\<lparr>job := (job (s ! i))\<lparr>nextRun := now\<rparr>\<rparr>)"
      by (simp add: one_in_flight_def)
    then have "list_all one_in_flight (s[i := (s ! i)\<lparr>job := (job (s ! i))\<lparr>nextRun := now\<rparr>\<rparr>])"
      using assms(2) by (rule list_all_update [rotated])
    with assms Trigger Some show ?thesis by (simp add: TriggerJob_def)
  qed
qed

lemma steps_one_in_flight:
  "steps es s = Some s' \<Longrightarrow> list_all one_in_flight s \<Longrightarrow> list_all one_in_flight s'"
proof (induction es arbitrary: s)
  case Nil
  then show ?case by simp
next
  case (Cons e es)
  from Cons.prems obtain s1 where s1: "step e s = Some s1" "steps es s1 = Some s'"
    by (auto split: option.splits)
  from s1(1) Cons.prems(2) have "list_all one_in_flight s1" by (rule step_one_in_flight)
  with s1(2) show ?case by (rule Cons.IH)
qed

text \<open>
  C2. In every state the scheduler reaches from its creation by registrations, tick
  checks, launches, completions and triggers, in any interleaving and with any number
  of ticks checking at once, every Job has at most one execution in flight, and its
  flag \<^verbatim>\<open>running\<close> is set exactly while one is. The two guards: a tick check spawns a
  goroutine only for a Job that is not running and whose nextRun lies before the tick,
  and a spawned goroutine that finds the Job running leaves without starting an
  execution.
\<close>

theorem scheduler_at_most_one_execution:
  assumes "steps es NewScheduler = Some s"
  shows "(\<forall>p \<in> set s. executing p \<le> 1 \<and> (running (job p) \<longleftrightarrow> executing p = 1))
    \<and> (\<forall>i now. i < length s \<and> \<not> (\<not> running (job (s ! i)) \<and> nextRun (job (s ! i)) < now) \<longrightarrow>
          step (Check i now) s = Some s)
    \<and> (\<forall>i now. i < length s \<and> 0 < spawned (s ! i) \<and> running (job (s ! i)) \<longrightarrow>
          step (Launch i now) s = Some (s[i := (s ! i)\<lparr>spawned := spawned (s ! i) - 1\<rparr>]))"
proof (intro conjI)
  have "list_all one_in_flight NewScheduler" by (simp add: NewScheduler_def)
  with assms have "list_all one_in_flight s" by (rule steps_one_in_flight)
  then show "\<forall>p \<in> set s. executing p \<le> 1 \<and> (running (job p) \<longleftrightarrow> executing p = 1)"
    by (simp add: list_all_iff one_in_flight_def)
  show "\<forall>i now. i < length s \<and> \<not> (\<not> running (job (s ! i)) \<and> nextRun (job (s ! i)) < now) \<longrightarrow>
          step (Check i now) s = Some s"
    by (simp add: shouldRun_def time_After_def)
  show "\<forall>i now. i < length s \<and> 0 < spawned (s ! i) \<and> running (job (s ! i)) \<longrightarrow>
          step (Launch i now) s = Some (s[i := (s ! i)\<lparr>spawned := spawned (s ! i) - 1\<rparr>])"
    by (simp add: runJob_begin_def)
qed

text \<open>
  An instance: one Job is registered at instant 0; two ticks both find it due and spawn
  a goroutine each; the first goroutine starts the execution, the second finds the Job
  running and leaves. One execution is in flight.
\<close>

theorem scheduler_at_most_one_execution_witness:
  "steps [Register ''ip_check'' 60 0, Check 0 6000000000, Check 0 6000000001,
          Launch 0 7000000000, Launch 0 7000000002] NewScheduler =
     Some [\<lparr>job = \<lparr>Name = ''ip_check'', Interval = 60, lastRun = 7000000000,
                   nextRun = 5000000000, lastError = None, errorCount = 0, running = True\<rparr>,
            spawned = 0, executing = 1\<rparr>]
   \<and> executing \<lparr>job = \<lparr>Name = ''ip_check'', Interval = 60, lastRun = 7000000000,
                   nextRun = 5000000000, lastError = None, errorCount = 0, running = True\<rparr>,
            spawned = 0, executing = 1\<rparr> \<le> 1
   \<and> step (Check 0 8000000000)
        [\<lparr>job = \<lparr>Name = ''ip_check'', Interval = 60, lastRun = 7000000000,
                   nextRun = 5000000000, lastError = None, errorCount = 0, running = True\<rparr>,
            spawned = 0, executing = 1\<rparr>] =
      Some [\<lparr>job = \<lparr>Name = ''ip_check'', Interval = 60, lastRun = 7000000000,
                   nextRun = 5000000000, lastError = None, errorCount = 0, running = True\<rparr>,
            spawned = 0, executing = 1\<rparr>]"
proof -
  let ?es = "[Register ''ip_check'' 60 0, Check 0 6000000000, Check 0 6000000001,
          Launch 0 7000000000, Launch 0 7000000002]"
  let ?p = "\<lparr>job = \<lparr>Name = ''ip_check'', Interval = 60, lastRun = 7000000000,
                   nextRun = 5000000000, lastError = None, errorCount = 0, running = True\<rparr>,
            spawned = 0, executing = 1\<rparr>"
  have run: "steps ?es NewScheduler = Some [?p]"
    by (simp add: NewScheduler_def AddJob_def Job_literal_def shouldRun_def time_After_def
        time_Add_def Second_def runJob_begin_def)
  from scheduler_at_most_one_execution [OF run] have "executing ?p \<le> 1"
    and "step (Check 0 8000000000) [?p] = Some [?p]"
    by simp_all
  with run show ?thesis by blast
qed

lemma runTraceroute_from_done:
  "k < length targets \<Longrightarrow> ctx (m + k) = Some e \<Longrightarrow> \<forall>i<k. ctx (m + i) = None \<Longrightarrow>
   runTraceroute_from ctx trace save m targets = Some e"
proof (induction targets arbitrary: m k)
  case Nil
  then show ?case by simp
next
  case (Cons t ts)
  show ?case
  proof (cases k)
    case 0
    with Cons.prems show ?thesis by simp
  next
    case (Suc k')
    with Cons.prems have here: "ctx m = None" by force
    from Suc Cons.prems have "k' < length ts" "ctx (Suc m + k') = Some e"
      "\<forall>i<k'. ctx (Suc m + i) = None" by force+
    then have "runTraceroute_from ctx trace save (Suc m) ts = Some e" by (rule Cons.IH)
    with here show ?thesis by (simp split: sum.splits option.splits)
  qed
qed

text \<open>
  C3, as the code has it. The wrapper has no case for cancellation: when the context is
  done at the \<open>k\<close>-th poll of runTraceroute, the Job's Run returns the context's error
  (\<^verbatim>\<open>context.Canceled\<close> on shutdown), and the wrapper treats it as any other error: it
  is recorded as lastError, errorCount grows by one and nextRun is the completion time
  plus interval/2.
\<close>

theorem cancellation_counts_as_failure:
  assumes "k < length targets" and "ctx k = Some e" and "\<forall>i<k. ctx i = None"
  shows "runTraceroute ctx trace save targets = Some e
    \<and> runJob_finish j (runTraceroute ctx trace save targets) now =
        j\<lparr>running := False, lastError := Some e, errorCount := errorCount j + 1,
          nextRun := now + sint (Interval j) sdiv 2\<rparr>"
proof -
  from assms have "runTraceroute_from ctx trace save 0 targets = Some e"
    using runTraceroute_from_done [of k targets ctx 0 e trace save] by simp
  then show ?thesis by (simp add: runTraceroute_def runJob_finish_failed)
qed

theorem cancellation_counts_as_failure_witness:
  "runTraceroute (ctx_done Canceled) trace_fails save_ok [''1.1.1.1'', ''8.8.8.8''] =
     Some Canceled
   \<and> runJob_finish (Job_literal ''traceroute'' 600)
        (runTraceroute (ctx_done Canceled) trace_fails save_ok [''1.1.1.1'', ''8.8.8.8'']) 1000 =
      \<lparr>Name = ''traceroute'', Interval = 600, lastRun = 0, nextRun = 1300,
        lastError = Some Canceled, errorCount = 1, running = False\<rparr>"
proof -
  let ?j = "Job_literal ''traceroute'' 600"
  let ?r = "runTraceroute (ctx_done Canceled) trace_fails save_ok [''1.1.1.1'', ''8.8.8.8'']"
  have half: "sint (600 :: 64 word) sdiv 2 = 300" by (simp add: signed_divide_int_def)
  have "(0::nat) < length [''1.1.1.1'', ''8.8.8.8'']" "ctx_done Canceled 0 = Some Canceled"
      "\<forall>i<(0::nat). ctx_done Canceled i = None"
    by (simp_all add: ctx_done_def)
  note w = cancellation_counts_as_failure [OF this, of trace_fails save_ok ?j 1000]
  from w have a: "?r = Some Canceled" by (rule conjunct1)
  from w have b: "runJob_finish ?j ?r 1000 =
      ?j\<lparr>running := False, lastError := Some Canceled, errorCount := errorCount ?j + 1,
          nextRun := 1000 + sint (Interval ?j) sdiv 2\<rparr>" by (rule conjunct2)
  have c: "?j\<lparr>running := False, lastError := Some Canceled, errorCount := errorCount ?j + 1,
          nextRun := 1000 + sint (Interval ?j) sdiv 2\<rparr> =
      \<lparr>Name = ''traceroute'', Interval = 600, lastRun = 0, nextRun = 1300,
        lastError = Some Canceled, errorCount = 1, running = False\<rparr>"
    using half by (simp add: Job_literal_def)
  from b c have "runJob_finish ?j ?r 1000 =
      \<lparr>Name = ''traceroute'', Interval = 600, lastRun = 0, nextRun = 1300,
        lastError = Some Canceled, errorCount = 1, running = False\<rparr>" by (rule trans)
  with a show ?thesis by (rule conjI)
qed

text \<open>
  C3 as stated fails: the traceroute Job, cancelled before its first target, comes back
  from the wrapper with errorCount 1 instead of 0 and with nextRun at half the interval.
\<close>

theorem cancellation_not_distinguished_counterexample:
  "errorCount (runJob_finish (Job_literal ''traceroute'' 600)
      (runTraceroute (ctx_done Canceled) trace_fails save_ok [''1.1.1.1'']) 1000)
     \<noteq> errorCount (Job_literal ''traceroute'' 600)
   \<and> nextRun (runJob_finish (Job_literal ''traceroute'' 600)
      (runTraceroute (ctx_done Canceled) trace_fails save_ok [''1.1.1.1'']) 1000)
     = 1000 + sint (600 :: 64 word) sdiv 2"
  by (simp add: runTraceroute_def ctx_done_def runJob_finish_failed Job_literal_def)

section \<open>Properties of the public IP probe\<close>










text \<open>
  C5 on the code. With the three default providers and a live context, every provider
  sending one value: the timeout fires first, before any provider has delivered. The
  loop does not end there. It goes on to its second iteration, where it waits for and
  receives the answer of one provider, and to its third, where it receives the error of
  another; only then does the call return, with the address that arrived after the
  timeout. When the timeout fires after the first answer, the loop likewise waits for
  one more provider and counts its answer.
\<close>

theorem GetPublicIP_waits_after_timeout:
  "collect (length (providers NewIPProbe))
      [TimedOut, GotIP ''203.0.113.7'', GotErr (ProbeError ''status 500'')] [] [] =
     Some (Collected [''203.0.113.7''] [ProbeError ''status 500''])
   \<and> GetPublicIP NewIPProbe
        [TimedOut, GotIP ''203.0.113.7'', GotErr (ProbeError ''status 500'')]
        [''203.0.113.7''] = Some (Inr ''203.0.113.7'')
   \<and> collect (length (providers NewIPProbe))
        [GotIP ''198.51.100.1'', TimedOut, GotIP ''203.0.113.7''] [] [] =
     Some (Collected [''198.51.100.1'', ''203.0.113.7''] [])"
  by (simp add: GetPublicIP_def NewIPProbe_def DefaultIPProviders_def numeral_3_eq_3
      consensus_def count_ips_def count_up_def)

section \<open>Properties of the traceroute parser\<close>

lemma hopRegex_on_reply:
  "FindStringSubmatch hopRegex 3 ''1 192.168.0.1 1.234 ms'' =
     Some [''1 192.168.0.1 1.234 ms'', ''1'', ''192.168.0.1'', ''1.234'']"
  by code_simp

lemma hopRegex_on_stars:
  "FindStringSubmatch hopRegex 3 ''2 * * *'' = Some [''2 * * *'', ''2'', [], []]"
  by code_simp

lemma hopRegex_on_stars_3:
  "FindStringSubmatch hopRegex 3 ''3 * * *'' = Some [''3 * * *'', ''3'', [], []]"
  by code_simp

lemma hopRegex_on_single_star:
  "FindStringSubmatch hopRegex 3 '' 2  *'' = None"
  by code_simp

lemma scan_lines_reply: "scan_lines ''1 192.168.0.1 1.234 ms'' = [''1 192.168.0.1 1.234 ms'']"
  by (simp add: scan_lines_def MaxScanTokenSize_def dropCR_def)

lemma scan_lines_stars: "scan_lines ''2 * * *'' = [''2 * * *'']"
  by (simp add: scan_lines_def MaxScanTokenSize_def dropCR_def)

lemma scan_lines_three:
  "scan_lines ''1 192.168.0.1 1.234 ms\<newline> 2  *\<newline>3 * * *\<newline>'' =
     [''1 192.168.0.1 1.234 ms'', '' 2  *'', ''3 * * *'']"
  by (simp add: scan_lines_def MaxScanTokenSize_def dropCR_def)

lemma Atoi_small: "Atoi ''1'' = 1" "Atoi ''2'' = 2" "Atoi ''3'' = 3"
  by (simp_all add: Atoi_def digit_val_def)

lemma decimal_value_1234: "decimal_value ''1.234'' = 1234 / 1000"
  by (simp add: decimal_value_def digit_val_def)

lemma parse_lines_map_filter:
  "parse_lines pf ls hops = hops @ List.map_filter (hop_of_line pf) ls"
  by (induction ls arbitrary: hops) (auto simp: List.map_filter_simps split: option.splits)

lemma hop_of_line_Some:
  "hop_of_line pf line = Some h \<Longrightarrow>
     \<exists>m. FindStringSubmatch hopRegex 3 line = Some m \<and> HopNum h = Atoi (m ! 1)"
  by (auto simp: hop_of_line_def Let_def split: option.splits if_splits)

text \<open>
  C6. The line \<^verbatim>\<open>1 192.168.0.1 1.234 ms\<close> yields one hop with hopNum 1, ip 192.168.0.1,
  lost false and the latency that ParseFloat reads from the text \<^verbatim>\<open>1.234\<close>; the line
  \<^verbatim>\<open>2 * * *\<close> yields one hop with hopNum 2 and lost true. The result holds one hop for
  each line that the pattern matches, in the order of the lines, and nothing for a line
  it does not match: every hop of the result comes from a matched line of the output
  and carries the number at the start of that line.
\<close>

theorem parseTracerouteOutput_hops:
  fixes pf :: "string \<Rightarrow> 'f::zero"
  shows "parseTracerouteOutput pf ''1 192.168.0.1 1.234 ms'' =
       [\<lparr>hop_ID = 0, TraceID = 0, HopNum = 1, hop_IP = ''192.168.0.1'', hop_Hostname = [],
         hop_LatencyMs = pf ''1.234'', Lost = False\<rparr>]
    \<and> parseTracerouteOutput pf ''2 * * *'' =
       [\<lparr>hop_ID = 0, TraceID = 0, HopNum = 2, hop_IP = [], hop_Hostname = [],
         hop_LatencyMs = 0, Lost = True\<rparr>]
    \<and> parseTracerouteOutput pf output = List.map_filter (hop_of_line pf) (scan_lines output)
    \<and> (FindStringSubmatch hopRegex 3 line = None \<longrightarrow> hop_of_line pf line = None)
    \<and> (\<forall>h \<in> set (parseTracerouteOutput pf output).
          \<exists>l \<in> set (scan_lines output). \<exists>m.
            FindStringSubmatch hopRegex 3 l = Some m \<and> HopNum h = Atoi (m ! 1))"
proof -
  have 1: "parseTracerouteOutput pf ''1 192.168.0.1 1.234 ms'' =
       [\<lparr>hop_ID = 0, TraceID = 0, HopNum = 1, hop_IP = ''192.168.0.1'', hop_Hostname = [],
         hop_LatencyMs = pf ''1.234'', Lost = False\<rparr>]"
    by (simp add: parseTracerouteOutput_def scan_lines_reply hop_of_line_def
        hopRegex_on_reply Atoi_small)
  have 2: "parseTracerouteOutput pf ''2 * * *'' =
       [\<lparr>hop_ID = 0, TraceID = 0, HopNum = 2, hop_IP = [], hop_Hostname = [],
         hop_LatencyMs = 0, Lost = True\<rparr>]"
    by (simp add: parseTracerouteOutput_def scan_lines_stars hop_of_line_def
        hopRegex_on_stars Atoi_small)
  have 3: "parseTracerouteOutput pf output = List.map_filter (hop_of_line pf) (scan_lines output)"
    by (simp add: parseTracerouteOutput_def parse_lines_map_filter)
  have 4: "FindStringSubmatch hopRegex 3 line = None \<longrightarrow> hop_of_line pf line = None"
    by (simp add: hop_of_line_def)
  have 5: "\<forall>h \<in> set (parseTracerouteOutput pf output).
          \<exists>l \<in> set (scan_lines output). \<exists>m.
            FindStringSubmatch hopRegex 3 l = Some m \<and> HopNum h = Atoi (m ! 1)"
  proof
    fix h assume "h \<in> set (parseTracerouteOutput pf output)"
    with 3 obtain l where l: "l \<in> set (scan_lines output)" "hop_of_line pf l = Some h"
      by (auto simp: List.map_filter_def)
    from hop_of_line_Some [OF l(2)] l(1)
    show "\<exists>l \<in> set (scan_lines output). \<exists>m.
            FindStringSubmatch hopRegex 3 l = Some m \<and> HopNum h = Atoi (m ! 1)" by blast
  qed
  from 1 2 3 4 5 show ?thesis by (intro conjI)
qed

text \<open>
  An instance, reading latencies exactly: an output whose second line shows a single
  star, which the pattern does not match. The result holds the hops 1 and 3 only.
\<close>

theorem parseTracerouteOutput_hops_witness:
  "parseTracerouteOutput decimal_value ''1 192.168.0.1 1.234 ms'' =
       [\<lparr>hop_ID = 0, TraceID = 0, HopNum = 1, hop_IP = ''192.168.0.1'', hop_Hostname = [],
         hop_LatencyMs = 1234 / 1000, Lost = False\<rparr>]
   \<and> FindStringSubmatch hopRegex 3 '' 2  *'' = None
   \<and> hop_of_line decimal_value '' 2  *'' = None
   \<and> parseTracerouteOutput decimal_value
        ''1 192.168.0.1 1.234 ms\<newline> 2  *\<newline>3 * * *\<newline>'' =
       [\<lparr>hop_ID = 0, TraceID = 0, HopNum = 1, hop_IP = ''192.168.0.1'', hop_Hostname = [],
         hop_LatencyMs = 1234 / 1000, Lost = False\<rparr>,
        \<lparr>hop_ID = 0, TraceID = 0, HopNum = 3, hop_IP = [], hop_Hostname = [],
         hop_LatencyMs = 0, Lost = True\<rparr>]"
proof -
  let ?out = "''1 192.168.0.1 1.234 ms\<newline> 2  *\<newline>3 * * *\<newline>''"
  note w = parseTracerouteOutput_hops [of decimal_value ?out "'' 2  *''"]
  from w have a: "parseTracerouteOutput decimal_value ''1 192.168.0.1 1.234 ms'' =
       [\<lparr>hop_ID = 0, TraceID = 0, HopNum = 1, hop_IP = ''192.168.0.1'', hop_Hostname = [],
         hop_LatencyMs = 1234 / 1000, Lost = False\<rparr>]"
    by (simp only: decimal_value_1234)
  from w hopRegex_on_single_star have b: "hop_of_line decimal_value '' 2  *'' = None" by blast
  have h1: "hop_of_line decimal_value ''1 192.168.0.1 1.234 ms'' =
      Some \<lparr>hop_ID = 0, TraceID = 0, HopNum = 1, hop_IP = ''192.168.0.1'', hop_Hostname = [],
         hop_LatencyMs = 1234 / 1000, Lost = False\<rparr>"
    by (simp add: hop_of_line_def hopRegex_on_reply Atoi_small decimal_value_1234)
  have h3: "hop_of_line decimal_value ''3 * * *'' =
      Some \<lparr>hop_ID = 0, TraceID = 0, HopNum = 3, hop_IP = [], hop_Hostname = [],
         hop_LatencyMs = 0, Lost = True\<rparr>"
    by (simp add: hop_of_line_def hopRegex_on_stars_3 Atoi_small)
  from w have eq: "parseTracerouteOutput decimal_value ?out =
      List.map_filter (hop_of_line decimal_value) (scan_lines ?out)" by blast
  have "List.map_filter (hop_of_line decimal_value) (scan_lines ?out) =
       [\<lparr>hop_ID = 0, TraceID = 0, HopNum = 1, hop_IP = ''192.168.0.1'', hop_Hostname = [],
         hop_LatencyMs = 1234 / 1000, Lost = False\<rparr>,
        \<lparr>hop_ID = 0, TraceID = 0, HopNum = 3, hop_IP = [], hop_Hostname = [],
         hop_LatencyMs = 0, Lost = True\<rparr>]"
    unfolding scan_lines_three by (simp only: List.map_filter_simps h1 b h3 option.case)
  with eq have c: "parseTracerouteOutput decimal_value ?out =
       [\<lparr>hop_ID = 0, TraceID = 0, HopNum = 1, hop_IP = ''192.168.0.1'', hop_Hostname = [],
         hop_LatencyMs = 1234 / 1000, Lost = False\<rparr>,
        \<lparr>hop_ID = 0, TraceID = 0, HopNum = 3, hop_IP = [], hop_Hostname = [],
         hop_LatencyMs = 0, Lost = True\<rparr>]"
    by (rule trans)
  from a hopRegex_on_single_star b c show ?thesis by (intro conjI)
qed

section \<open>Properties of incIP and expandCIDR\<close>

lemma incIP_from_inc_le:
  "j \<le> length ip \<Longrightarrow> incIP_from j ip = rev (inc_le (rev (take j ip))) @ drop j ip"
proof (induction j arbitrary: ip)
  case 0
  then show ?case by simp
next
  case (Suc k)
  then have k: "k < length ip" by simp
  let ?ip' = "ip[k := ip ! k + 1]"
  have t: "take (Suc k) ip = take k ip @ [ip ! k]" using k by (simp add: take_Suc_conv_app_nth)
  show ?case
  proof (cases "ip ! k + 1 > 0")
    case True
    with k have "incIP_from (Suc k) ip = ?ip'" by (simp add: Let_def)
    moreover have "?ip' = take k ip @ [ip ! k + 1] @ drop (Suc k) ip"
      using k by (simp add: upd_conv_take_nth_drop)
    ultimately show ?thesis using True t by (simp del: incIP_from.simps)
  next
    case False
    with k have "incIP_from (Suc k) ip = incIP_from k ?ip'" by (simp add: Let_def)
    also have "\<dots> = rev (inc_le (rev (take k ?ip'))) @ drop k ?ip'"
      using k by (intro Suc.IH) simp
    also have "take k ?ip' = take k ip" by simp
    also have "drop k ?ip' = (ip ! k + 1) # drop (Suc k) ip"
      using k by (simp add: upd_conv_take_nth_drop)
    finally show ?thesis using False t by (simp del: incIP_from.simps add: word_gt_0)
  qed
qed

lemma incIP_inc_le: "incIP ip = rev (inc_le (rev ip))"
  by (simp add: incIP_def incIP_from_inc_le)

lemma length_inc_le: "length (inc_le bs) = length bs"
  by (induction bs) auto

lemma length_incIP: "length (incIP ip) = length ip"
  by (simp add: incIP_inc_le length_inc_le)


lemma ip_val_append: "ip_val (xs @ ys) = ip_val xs * 256 ^ length ys + ip_val ys"
  by (induction xs) (simp_all add: power_add algebra_simps)

lemma unat_byte_le: "unat (b :: 8 word) \<le> 255"
  using unsigned_less [of b, where 'a = nat] by simp

lemma unat_byte_Suc: "(b :: 8 word) + 1 > 0 \<Longrightarrow> unat (b + 1) = unat b + 1"
  by (simp add: add.commute unatSuc unat_gt_0)

lemma unat_byte_max: "\<not> (b :: 8 word) + 1 > 0 \<Longrightarrow> unat b = 255"
proof -
  assume "\<not> b + 1 > 0"
  then have "b + 1 = 0" by (simp add: word_gt_0)
  then have "b = - 1" by (simp add: eq_neg_iff_add_eq_0)
  moreover have "unat (- 1 :: 8 word) = 255"
    by (simp add: unsigned_minus_1_eq_mask mask_eq_exp_minus_1)
  ultimately show ?thesis by simp
qed

lemma ip_val_bound: "ip_val bs < 256 ^ length bs"
proof (induction bs)
  case Nil
  then show ?case by simp
next
  case (Cons b bs)
  define P :: nat where "P = 256 ^ length bs"
  have "unat b * P \<le> 255 * P" using unat_byte_le [of b] by (rule mult_le_mono1)
  moreover from Cons have "ip_val bs < P" by (simp add: P_def)
  ultimately have "unat b * P + ip_val bs < 256 * P" by linarith
  then show ?case by (simp add: P_def)
qed

lemma ip_val_inc_le:
  "ip_val (rev (inc_le bs)) = (ip_val (rev bs) + 1) mod 256 ^ length bs"
proof (induction bs)
  case Nil
  then show ?case by simp
next
  case (Cons b bs)
  define P :: nat where "P = 256 ^ length bs"
  define v where "v = ip_val (rev bs)"
  have bb: "v < P" using ip_val_bound [of "rev bs"] by (simp add: P_def v_def)
  have whole: "ip_val (rev (b # bs)) = v * 256 + unat b"
    by (simp add: ip_val_append v_def)
  show ?case
  proof (cases "b + 1 > 0")
    case True
    then have u1: "unat (b + 1) = unat b + 1" by (rule unat_byte_Suc)
    with unat_byte_le [of "b + 1"] have ub: "unat b < 255" by simp
    from bb have "v * 256 + 256 \<le> P * 256" by linarith
    with ub have "v * 256 + unat b + 1 < 256 * P" by linarith
    then have "(v * 256 + unat b + 1) mod (256 * P) = v * 256 + unat b + 1" by simp
    moreover from True u1 have "ip_val (rev (inc_le (b # bs))) = v * 256 + unat b + 1"
      by (simp add: ip_val_append v_def)
    ultimately show ?thesis using whole by (simp add: P_def)
  next
    case False
    then have ub: "unat b = 255" by (rule unat_byte_max)
    from False have "ip_val (rev (inc_le (b # bs))) = ip_val (rev (inc_le bs)) * 256"
      by (simp add: ip_val_append)
    also have "\<dots> = ((v + 1) mod P) * 256" by (simp add: Cons P_def v_def)
    also have "\<dots> = ((v + 1) * 256) mod (P * 256)" by (rule mult_mod_left)
    also have "(v + 1) * 256 = ip_val (rev (b # bs)) + 1"
      using ub whole by simp
    finally show ?thesis by (simp add: P_def mult.commute)
  qed
qed

lemma ip_val_incIP: "ip_val (incIP ip) = (ip_val ip + 1) mod 256 ^ length ip"
  using ip_val_inc_le [of "rev ip"] by (simp add: incIP_inc_le)

lemma drop_bit_255: "drop_bit n (255 :: 8 word) = mask (8 - n)"
proof -
  have e: "(255 :: 8 word) = mask 8" by (simp add: mask_eq_exp_minus_1)
  have "drop_bit n (mask 8 :: 8 word) = mask (8 - n)"
    by (rule bit_eqI) (auto simp: bit_simps)
  then show ?thesis by (simp only: e)
qed

lemma and_not_mask_byte: "(x::8 word) AND NOT (mask k) = push_bit k (drop_bit k x)"
  by (rule bit_eqI) (auto simp: bit_simps)

lemma unat_and_not_mask_byte: "unat ((x::8 word) AND NOT (mask k)) = (unat x div 2^k) * 2^k"
proof -
  have "unat x div 2 ^ k * 2 ^ k \<le> unat x" by simp
  also have "unat x < 2 ^ 8" using unsigned_less [of x, where 'a = nat] by simp
  finally have t: "take_bit 8 (unat x div 2 ^ k * 2 ^ k) = unat x div 2 ^ k * 2 ^ k"
    by (simp add: take_bit_nat_eq_self)
  have "unat (push_bit k (drop_bit k x)) = take_bit 8 (push_bit k (unat (drop_bit k x)))"
    by (simp only: unsigned_push_bit_eq) simp
  also have "unat (drop_bit k x) = unat x div 2 ^ k"
    by (simp only: unat_drop_bit_eq) (simp only: drop_bit_eq_div)
  also have "push_bit k (unat x div 2 ^ k) = unat x div 2 ^ k * 2 ^ k"
    by (simp only: push_bit_eq_mult)
  finally show ?thesis by (simp only: and_not_mask_byte t)
qed


lemma and_255_byte: "(x :: 8 word) AND 255 = x"
proof -
  have "(255 :: 8 word) = - 1" by simp
  then show ?thesis by (simp only: and.right_neutral bit.conj_one_right)
qed

lemma length_mask_bytes: "length (mask_bytes n l) = l"
  by (induction l arbitrary: n) auto

lemma mask_bytes_0: "mask_bytes 0 l = replicate l 0"
  by (induction l) auto

lemma ip_val_zeros: "ip_val (replicate l 0) = 0"
  by (induction l) auto

lemma and_zeros: "length xs = l \<Longrightarrow> map (\<lambda>(a, m). a AND m) (zip xs (replicate l (0 :: 8 word))) = replicate l 0"
  by (induction xs arbitrary: l) auto

lemma ip_val_masked:
  "n \<le> 8 * length xs \<Longrightarrow>
   ip_val (map (\<lambda>(a, m). a AND m) (zip xs (mask_bytes n (length xs)))) =
     (ip_val xs div 2 ^ (8 * length xs - n)) * 2 ^ (8 * length xs - n)"
proof (induction xs arbitrary: n)
  case Nil
  then show ?case by simp
next
  case (Cons x xs)
  define l where "l = length xs"
  define P :: nat where "P = 256 ^ l"
  define v where "v = ip_val xs"
  have vP: "v < P" using ip_val_bound [of xs] by (simp add: v_def P_def l_def)
  have P2: "P = 2 ^ (8 * l)" by (simp add: P_def power_mult)
  show ?case
  proof (cases "8 \<le> n")
    case True
    define h where "h = 8 * l - (n - 8)"
    from True Cons.prems have n8: "n - 8 \<le> 8 * length xs" by simp
    have hl: "h \<le> 8 * l" by (simp add: h_def)
    have hh: "8 * length (x # xs) - n = h" using True Cons.prems by (simp add: h_def l_def)
    obtain Q :: nat where Q: "P = Q * 2 ^ h"
      using hl by (metis P2 le_add_diff_inverse2 power_add)
    have "ip_val (map (\<lambda>(a, m). a AND m) (zip (x # xs) (mask_bytes n (length (x # xs))))) =
        unat x * P + (v div 2 ^ h) * 2 ^ h"
      using True Cons.IH [OF n8] by (simp add: length_mask_bytes P_def l_def v_def h_def and_255_byte)
    also have "\<dots> = (unat x * Q + v div 2 ^ h) * 2 ^ h" by (simp add: Q algebra_simps)
    also have "unat x * Q + v div 2 ^ h = (unat x * Q * 2 ^ h + v) div 2 ^ h" by simp
    also have "unat x * Q * 2 ^ h + v = ip_val (x # xs)"
      by (simp add: Q P_def [symmetric] l_def [symmetric] v_def algebra_simps)
    finally show ?thesis by (simp only: hh)
  next
    case False
    define k where "k = 8 - n"
    have hh: "8 * length (x # xs) - n = k + 8 * l" using False by (simp add: k_def l_def)
    have mb: "mask_bytes n (length (x # xs)) = NOT (mask k) # replicate l 0"
      using False by (simp add: drop_bit_255 k_def mask_bytes_0 l_def)
    have "ip_val (map (\<lambda>(a, m). a AND m) (zip (x # xs) (mask_bytes n (length (x # xs))))) =
        unat (x AND NOT (mask k)) * P"
      unfolding mb by (simp add: and_zeros l_def ip_val_zeros P_def)
    also have "\<dots> = (unat x div 2 ^ k) * 2 ^ k * P" by (simp only: unat_and_not_mask_byte)
    also have "unat x div 2 ^ k = (unat x * P + v) div P div 2 ^ k" using vP by simp
    also have "\<dots> = (unat x * P + v) div (P * 2 ^ k)" by (simp only: div_mult2_eq)
    also have "P * 2 ^ k = 2 ^ (k + 8 * l)" by (simp add: P2 power_add)
    also have "unat x * P + v = ip_val (x # xs)" by (simp add: P_def l_def v_def)
    finally show ?thesis by (simp only: hh) (simp add: P2 power_add algebra_simps)
  qed
qed

lemma ip_val_inj: "length xs = length ys \<Longrightarrow> ip_val xs = ip_val ys \<Longrightarrow> xs = ys"
proof (induction xs arbitrary: ys)
  case Nil
  then show ?case by simp
next
  case (Cons x xs)
  then obtain y ys' where ys: "ys = y # ys'" by (cases ys) auto
  define P :: nat where "P = 256 ^ length xs"
  have bx: "ip_val xs < P" using ip_val_bound [of xs] by (simp add: P_def)
  have by': "ip_val ys' < P" using ip_val_bound [of ys'] Cons.prems ys by (simp add: P_def)
  from Cons.prems ys have e: "unat x * P + ip_val xs = unat y * P + ip_val ys'"
    by (simp add: P_def)
  have "(unat x * P + ip_val xs) div P = unat x" "(unat y * P + ip_val ys') div P = unat y"
    using bx by' by simp_all
  with e have ux: "unat x = unat y" by simp
  with e have "ip_val xs = ip_val ys'" by simp
  with Cons.IH [of ys'] Cons.prems ys have "xs = ys'" by simp
  moreover from ux have "x = y" by (simp add: word_unat_eq_iff)
  ultimately show ?case using ys by simp
qed

lemma CIDRMask_32: "ones \<le> 32 \<Longrightarrow> CIDRMask ones 32 = mask_bytes ones 4"
  by (simp add: CIDRMask_def IPv4len_def IPv6len_def)

lemma IP_Mask_v4:
  "length a = 4 \<Longrightarrow> length m = 4 \<Longrightarrow>
   IP_Mask (v4InV6Prefix @ a) m = map (\<lambda>(x, y). x AND y) (zip a m)"
  by (simp add: IP_Mask_def IPv4len_def IPv6len_def v4InV6Prefix_def Let_def)

lemma parsed_v4_eq:
  "length a = 4 \<Longrightarrow> ones \<le> 32 \<Longrightarrow>
   parsed_v4 a ones =
     (v4InV6Prefix @ a,
      \<lparr>net_IP = map (\<lambda>(x, y). x AND y) (zip a (mask_bytes ones 4)), Mask = mask_bytes ones 4\<rparr>)"
  by (simp add: parsed_v4_def CIDRMask_32 IP_Mask_v4 length_mask_bytes)

lemma masked_idem:
  "map (\<lambda>(x, y). x AND y) (zip (map (\<lambda>(x, y). x AND y) (zip a m)) m) =
   map (\<lambda>(x, y). x AND (y :: 8 word)) (zip a m)"
  by (induction a arbitrary: m) (auto simp: zip_Cons1 split: list.splits)

lemma masked_eq_iff:
  "length xs = length m \<Longrightarrow> length ys = length m \<Longrightarrow>
   (\<forall>i < length m. xs ! i AND m ! i = ys ! i AND (m ! i :: 8 word)) \<longleftrightarrow>
   map (\<lambda>(x, y). x AND y) (zip xs m) = map (\<lambda>(x, y). x AND y) (zip ys m)"
  by (auto simp: list_eq_iff_nth_eq)

lemma Contains_v4:
  assumes "length a = 4" and "length ip = 4" and "ones \<le> 32"
  shows "Contains (snd (parsed_v4 a ones)) ip \<longleftrightarrow>
         ip_val ip div 2 ^ (32 - ones) = ip_val a div 2 ^ (32 - ones)"
proof -
  let ?m = "mask_bytes ones 4"
  let ?and = "\<lambda>xs. map (\<lambda>(x, y). x AND y) (zip xs ?m)"
  let ?h = "32 - ones"
  have lm: "length ?m = 4" by (rule length_mask_bytes)
  have ln: "length (?and a) = 4" using assms(1) lm by simp
  have nn: "networkNumberAndMask \<lparr>net_IP = ?and a, Mask = ?m\<rparr> = Some (?and a, ?m)"
    using ln lm by (simp add: networkNumberAndMask_def To4_def IPv4len_def IPv6len_def)
  have "Contains (snd (parsed_v4 a ones)) ip \<longleftrightarrow>
      (\<forall>i < length ?m. ?and a ! i AND ?m ! i = ip ! i AND ?m ! i)"
    using assms ln lm
    by (simp add: parsed_v4_eq Contains_def nn To4_def IPv4len_def del: mask_bytes.simps)
  also have "\<dots> \<longleftrightarrow> ?and (?and a) = ?and ip"
    using ln lm assms(2) by (intro masked_eq_iff) simp_all
  also have "\<dots> \<longleftrightarrow> ?and a = ?and ip" by (simp only: masked_idem)
  also have "\<dots> \<longleftrightarrow> ip_val (?and a) = ip_val (?and ip)"
    using ip_val_inj [of "?and a" "?and ip"] assms(1,2) lm by auto
  also have "ip_val (?and a) = (ip_val a div 2 ^ ?h) * 2 ^ ?h"
    using ip_val_masked [of ones a] assms(1,3) by simp
  also have "ip_val (?and ip) = (ip_val ip div 2 ^ ?h) * 2 ^ ?h"
    using ip_val_masked [of ones ip] assms(2,3) by simp
  finally show ?thesis by auto
qed

lemma start_v4:
  assumes "length a = 4" and "ones \<le> 32"
  shows "length (IP_Mask (fst (parsed_v4 a ones)) (Mask (snd (parsed_v4 a ones)))) = 4"
    and "ip_val (IP_Mask (fst (parsed_v4 a ones)) (Mask (snd (parsed_v4 a ones)))) =
         block_base a ones"
  using assms ip_val_masked [of ones a]
  by (simp_all add: parsed_v4_eq IP_Mask_v4 length_mask_bytes block_base_def
      del: mask_bytes.simps)

lemma ip4_of_val: "length ip = 4 \<Longrightarrow> ip4_of (ip_val ip) = ip"
proof -
  assume "length ip = 4"
  then obtain a b c d where ip: "ip = [a, b, c, d]"
    by (cases ip; simp) (metis (no_types) length_0_conv length_Suc_conv numeral_3_eq_3 Suc_inject)
  have bd: "unat a < 256" "unat b < 256" "unat c < 256" "unat d < 256"
    using unat_byte_le [of a] unat_byte_le [of b] unat_byte_le [of c] unat_byte_le [of d]
    by simp_all
  define v where "v = unat a * 16777216 + unat b * 65536 + unat c * 256 + unat d"
  have v: "ip_val ip = v" by (simp add: ip v_def)
  have d24: "v div 2 ^ 24 = unat a" using bd by (simp add: v_def)
  have d16: "v div 2 ^ 16 = unat a * 256 + unat b" using bd by (simp add: v_def)
  have d8: "v div 2 ^ 8 = (unat a * 256 + unat b) * 256 + unat c" using bd by (simp add: v_def)
  have z: "(256 :: 8 word) = 0" "(65536 :: 8 word) = 0" "(16777216 :: 8 word) = 0"
    by simp_all
  have "ip4_of v = [a, b, c, d]"
    unfolding ip4_of_def d24 d16 d8 by (simp add: v_def z)
  with v ip show ?thesis by simp
qed

lemma block_facts:
  assumes "length a = 4" and "ones \<le> 32"
  shows "block_base a ones + block_size ones \<le> 2 ^ 32"
    and "block_base a ones div block_size ones = ip_val a div block_size ones"
    and "ip_val a div block_size ones < 2 ^ ones"
proof -
  define S :: nat where "S = 2 ^ (32 - ones)"
  define q where "q = ip_val a div S"
  have S0: "0 < S" by (simp add: S_def)
  have tot: "S * 2 ^ ones = 2 ^ 32"
    using assms(2) by (simp add: S_def flip: power_add)
  have "ip_val a < 2 ^ 32" using ip_val_bound [of a] assms(1) by simp
  then have "ip_val a < S * 2 ^ ones" by (simp only: tot)
  then have q: "q < 2 ^ ones" unfolding q_def by (simp add: less_mult_imp_div_less mult.commute)
  then have "Suc q \<le> 2 ^ ones" by simp
  then have "Suc q * S \<le> 2 ^ ones * S" by (rule mult_le_mono1)
  then have "q * S + S \<le> 2 ^ 32" using tot by (simp add: mult.commute)
  then show "block_base a ones + block_size ones \<le> 2 ^ 32"
    by (simp add: block_base_def block_size_def S_def q_def)
  show "block_base a ones div block_size ones = ip_val a div block_size ones"
    using S0 by (simp add: block_base_def block_size_def S_def)
  from q show "ip_val a div block_size ones < 2 ^ ones"
    by (simp add: q_def S_def block_size_def)
qed

lemma in_block_iff:
  assumes "length a = 4" and "ones \<le> 32"
  shows "v div block_size ones = ip_val a div block_size ones \<longleftrightarrow>
         block_base a ones \<le> v \<and> v < block_base a ones + block_size ones"
proof -
  define S :: nat where "S = block_size ones"
  define q where "q = ip_val a div S"
  have S0: "0 < S" by (simp add: S_def block_size_def)
  have B: "block_base a ones = q * S" by (simp add: block_base_def q_def S_def block_size_def)
  have "v div S = q \<longleftrightarrow> q * S \<le> v \<and> v < q * S + S"
    using S0 by (metis div_nat_eqI less_mult_imp_div_less mult.commute mult_Suc
        add.commute div_times_less_eq_dividend dividend_less_div_times)
  then show ?thesis by (simp add: B S_def q_def)
qed

lemma expand_loop_block:
  assumes a: "length a = 4" and ones: "1 \<le> ones" "ones \<le> 32"
  shows "length ip = 4 \<Longrightarrow> 1 \<le> k \<Longrightarrow> k \<le> block_size ones \<Longrightarrow>
     ip_val ip + k = block_base a ones + block_size ones \<Longrightarrow>
     expand_loop str (snd (parsed_v4 a ones)) ip acc =
       Some (acc @ map (\<lambda>v. str (ip4_of v)) [ip_val ip ..< ip_val ip + k])"
proof (induction k arbitrary: ip acc)
  case 0
  then show ?case by simp
next
  case (Suc k)
  let ?net = "snd (parsed_v4 a ones)"
  let ?B = "block_base a ones" and ?S = "block_size ones"
  note bf = block_facts [OF a ones(2)]
  have bs: "block_size ones = 2 ^ (32 - ones)" by (simp add: block_size_def)
  have "Contains ?net ip \<longleftrightarrow> ip_val ip div ?S = ip_val a div ?S"
    using Contains_v4 [OF a Suc.prems(1) ones(2)] by (simp add: bs)
  also have "\<dots> \<longleftrightarrow> ?B \<le> ip_val ip \<and> ip_val ip < ?B + ?S" by (rule in_block_iff [OF a ones(2)])
  finally have cont: "Contains ?net ip" using Suc.prems by simp
  have lt: "ip_val ip + 1 \<le> 2 ^ 32" using Suc.prems bf(1) by simp
  have len': "length (incIP ip) = 4" using Suc.prems(1) by (simp add: length_incIP)
  have here: "str ip = str (ip4_of (ip_val ip))" using Suc.prems(1) by (simp add: ip4_of_val)
  have step: "expand_loop str ?net ip acc = expand_loop str ?net (incIP ip) (acc @ [str ip])"
    using cont by (subst expand_loop.simps) simp
  show ?case
  proof (cases "k = 0")
    case True
    with Suc.prems have top: "ip_val ip + 1 = ?B + ?S" by simp
    have v': "ip_val (incIP ip) = (?B + ?S) mod 2 ^ 32"
      using Suc.prems(1) top by (simp add: ip_val_incIP)
    have "ip_val (incIP ip) div ?S \<noteq> ip_val a div ?S"
    proof (cases "?B + ?S = 2 ^ 32")
      case True
      with v' have "ip_val (incIP ip) = 0" by simp
      moreover have "ip_val a div ?S \<noteq> 0"
      proof
        assume z: "ip_val a div ?S = 0"
        then have "?B = 0" by (simp add: block_base_def bs)
        with True have "?S = 2 ^ 32" by simp
        then have "(2::nat) ^ (32 - ones) = 2 ^ 32" by (simp add: bs)
        moreover have "(2::nat) ^ (32 - ones) < 2 ^ 32"
          using ones by (intro power_strict_increasing) simp_all
        ultimately show False by simp
      qed
      ultimately show ?thesis by simp
    next
      case False
      with bf(1) have "?B + ?S < 2 ^ 32" by simp
      with v' have "ip_val (incIP ip) = ?B + ?S" by simp
      then have "\<not> (?B \<le> ip_val (incIP ip) \<and> ip_val (incIP ip) < ?B + ?S)" by simp
      then show ?thesis using in_block_iff [OF a ones(2), of "ip_val (incIP ip)"] by blast
    qed
    then have "\<not> Contains ?net (incIP ip)"
      using Contains_v4 [OF a len' ones(2)] by (simp add: bs)
    then have "expand_loop str ?net (incIP ip) (acc @ [str ip]) = Some (acc @ [str ip])"
      by (subst expand_loop.simps) simp
    with step here True show ?thesis by simp
  next
    case False
    then have k1: "1 \<le> k" by simp
    from Suc.prems have "ip_val ip + 1 < ?B + ?S" using False by simp
    with bf(1) have "ip_val ip + 1 < 2 ^ 32" by simp
    then have v': "ip_val (incIP ip) = ip_val ip + 1"
      using Suc.prems(1) by (simp add: ip_val_incIP)
    with Suc.prems have p: "k \<le> ?S" "ip_val (incIP ip) + k = ?B + ?S" by simp_all
    from Suc.IH [OF len' k1 p]
    have "expand_loop str ?net (incIP ip) (acc @ [str ip]) =
        Some ((acc @ [str ip]) @ map (\<lambda>v. str (ip4_of v)) [ip_val ip + 1 ..< ip_val ip + 1 + k])"
      by (simp add: v')
    moreover have "[ip_val ip ..< ip_val ip + Suc k] =
        ip_val ip # [ip_val ip + 1 ..< ip_val ip + 1 + k]"
      by (simp add: upt_conv_Cons)
    ultimately show ?thesis using step here by (simp del: upt_Suc)
  qed
qed

lemma expand_loop_diverges:
  assumes "expand_loop str0 net0 ip0 acc0 = Some y0" and "length a = 4"
  shows "net0 = snd (parsed_v4 a 0) \<longrightarrow> length ip0 = 4 \<longrightarrow> False"
proof (rule expand_loop.raw_induct
    [where P = "\<lambda>str net ip acc y. net = snd (parsed_v4 a 0) \<longrightarrow> length ip = 4 \<longrightarrow> False",
      OF _ assms(1)])
  fix loop :: "(netIP \<Rightarrow> string) \<Rightarrow> IPNet \<Rightarrow> netIP \<Rightarrow> string list \<Rightarrow> string list option"
    and str net ip acc y
  assume IH: "\<And>s n i c z. loop s n i c = Some z \<Longrightarrow>
      n = snd (parsed_v4 a 0) \<longrightarrow> length i = 4 \<longrightarrow> False"
    and eq: "(if Contains net ip then loop str net (incIP ip) (acc @ [str ip]) else Some acc) = Some y"
  show "net = snd (parsed_v4 a 0) \<longrightarrow> length ip = 4 \<longrightarrow> False"
  proof (intro impI)
    assume n: "net = snd (parsed_v4 a 0)" and l: "length ip = 4"
    have "ip_val ip < 2 ^ 32" "ip_val a < 2 ^ 32"
      using ip_val_bound [of ip] ip_val_bound [of a] l assms(2) by simp_all
    then have "Contains net ip" using Contains_v4 [OF assms(2) l, of 0] n by simp
    with eq have "loop str net (incIP ip) (acc @ [str ip]) = Some y" by simp
    from IH [OF this] n l show False by (simp add: length_incIP)
  qed
qed

lemma expandCIDR_v4:
  assumes p: "parse cidr = Inr (parsed_v4 a ones)"
    and a: "length a = 4" and ones: "1 \<le> ones" "ones \<le> 32"
  shows "expandCIDR parse str cidr =
     Some (Inr (map (\<lambda>v. str (ip4_of v))
       (if block_size ones > 2
        then [block_base a ones + 1 ..< block_base a ones + block_size ones - 1]
        else [block_base a ones ..< block_base a ones + block_size ones])))"
proof -
  let ?B = "block_base a ones" and ?S = "block_size ones"
  let ?start = "IP_Mask (fst (parsed_v4 a ones)) (Mask (snd (parsed_v4 a ones)))"
  let ?all = "map (\<lambda>v. str (ip4_of v)) [?B ..< ?B + ?S]"
  note st = start_v4 [OF a ones(2)]
  have S1: "1 \<le> ?S" by (simp add: block_size_def)
  have "expand_loop str (snd (parsed_v4 a ones)) ?start [] =
      Some ([] @ map (\<lambda>v. str (ip4_of v)) [ip_val ?start ..< ip_val ?start + ?S])"
    using st S1 by (intro expand_loop_block [OF a ones]) simp_all
  then have loop: "expand_loop str (snd (parsed_v4 a ones)) ?start [] = Some ?all"
    by (simp add: st)
  have len: "length ?all = ?S" by simp
  have trim: "drop 1 (take (?S - 1) ?all) = map (\<lambda>v. str (ip4_of v)) [?B + 1 ..< ?B + ?S - 1]"
    if "?S > 2"
  proof -
    have "take (?S - 1) [?B ..< ?B + ?S] = [?B ..< ?B + ?S - 1]"
      using that by (simp add: take_upt)
    then have "take (?S - 1) ?all = map (\<lambda>v. str (ip4_of v)) [?B ..< ?B + ?S - 1]"
      by (simp only: take_map)
    then show ?thesis by (simp add: drop_map)
  qed
  obtain ip ipnet where pr: "parsed_v4 a ones = (ip, ipnet)" by (cases "parsed_v4 a ones")
  with loop have loop': "expand_loop str ipnet (IP_Mask ip (Mask ipnet)) [] = Some ?all" by simp
  show ?thesis
  proof (cases "?S > 2")
    case True
    with trim have "drop 1 (take (length ?all - 1) ?all) =
        map (\<lambda>v. str (ip4_of v)) [?B + 1 ..< ?B + ?S - 1]" by (simp only: len)
    with True show ?thesis
      unfolding expandCIDR_def p pr using loop' len by simp
  next
    case False
    then show ?thesis
      unfolding expandCIDR_def p pr using loop' len by simp
  qed
qed

lemma expandCIDR_slash_zero:
  assumes "parse cidr = Inr (parsed_v4 a 0)" and "length a = 4"
  shows "expandCIDR parse str cidr = None"
proof -
  let ?start = "IP_Mask (fst (parsed_v4 a 0)) (Mask (snd (parsed_v4 a 0)))"
  have len: "length ?start = 4" using assms(2) by (simp add: start_v4)
  have "expand_loop str (snd (parsed_v4 a 0)) ?start [] = None"
  proof (cases "expand_loop str (snd (parsed_v4 a 0)) ?start []")
    case None
    then show ?thesis .
  next
    case (Some y)
    from expand_loop_diverges [OF Some assms(2)] len show ?thesis by simp
  qed
  then show ?thesis
    unfolding expandCIDR_def assms(1) by (simp add: split_beta)
qed

lemma expandCIDR_malformed:
  "parse cidr = Inl err \<Longrightarrow> expandCIDR parse str cidr = Some (Inl err)"
  by (simp add: expandCIDR_def)

lemma parse_examples_simps:
  "parse_examples ''192.168.1.0/30'' = Inr (parsed_v4 [192, 168, 1, 0] 30)"
  "parse_examples ''10.0.0.7/31'' = Inr (parsed_v4 [10, 0, 0, 7] 31)"
  "parse_examples ''0.0.0.0/0'' = Inr (parsed_v4 [0, 0, 0, 0] 0)"
  "parse_examples ''10.0.0.0/33'' = Inl (ParseError ''10.0.0.0/33'')"
  by (simp_all add: parse_examples_def)

lemma ip4_examples:
  "ip4_of 3232235777 = [192, 168, 1, 1]"
  "ip4_of 3232235778 = [192, 168, 1, 2]"
  "ip4_of 167772166 = [10, 0, 0, 6]"
  "ip4_of 167772167 = [10, 0, 0, 7]"
  by (simp_all add: ip4_of_def)

lemma ubtoa_examples:
  "ubtoa 192 = ''192''" "ubtoa 168 = ''168''" "ubtoa 1 = ''1''" "ubtoa 2 = ''2''"
  "ubtoa 10 = ''10''" "ubtoa 0 = ''0''" "ubtoa 6 = ''6''" "ubtoa 7 = ''7''"
  by code_simp+

lemma dotted_examples:
  "dotted (ip4_of 3232235777) = ''192.168.1.1''"
  "dotted (ip4_of 3232235778) = ''192.168.1.2''"
  "dotted (ip4_of 167772166) = ''10.0.0.6''"
  "dotted (ip4_of 167772167) = ''10.0.0.7''"
  by (simp_all add: dotted_def ip4_examples ubtoa_examples)

lemma block_examples:
  "block_base [192, 168, 1, 0] 30 = 3232235776" "block_size 30 = 4"
  "block_base [10, 0, 0, 7] 31 = 167772166" "block_size 31 = 2"
  by (simp_all add: block_base_def block_size_def)


lemma expandCIDR_example_31:
  "expandCIDR parse_examples dotted ''10.0.0.7/31'' = Some (Inr [''10.0.0.6'', ''10.0.0.7''])"
proof -
  have u: "[167772166 ..< 167772168] = [167772166, 167772167 :: nat]"
    by (simp add: upt_conv_Cons)
  have "expandCIDR parse_examples dotted ''10.0.0.7/31'' =
      Some (Inr (map (\<lambda>v. dotted (ip4_of v)) [167772166 ..< 167772168]))"
    using expandCIDR_v4 [of parse_examples "''10.0.0.7/31''" "[10, 0, 0, 7]" 31 dotted]
    by (simp add: parse_examples_simps block_examples)
  then show ?thesis unfolding u by (simp add: dotted_examples)
qed

text \<open>
  C7 on the code. For an IPv4 prefix of length 1 to 32 expandCIDR returns what the claim
  says (\<open>expandCIDR_v4\<close>: the addresses of the block in ascending order, without the
  first and the last when the block has more than two), and a malformed input gives the
  error of the parse (\<open>expandCIDR_malformed\<close>). For the prefix 0.0.0.0/0 it never
  returns: the network contains every address, and incIP wraps 255.255.255.255 around to
  0.0.0.0, so the condition of the loop never fails.
\<close>

theorem expandCIDR_slash_zero_never_returns:
  "parse_examples ''0.0.0.0/0'' = Inr (parsed_v4 [0, 0, 0, 0] 0)
   \<and> incIP [255, 255, 255, 255] = [0, 0, 0, 0]
   \<and> expandCIDR parse_examples dotted ''0.0.0.0/0'' = None"
proof -
  have 1: "parse_examples ''0.0.0.0/0'' = Inr (parsed_v4 [0, 0, 0, 0] 0)"
    by (rule parse_examples_simps)
  have 2: "incIP [255, 255, 255, 255] = [0, 0, 0, 0]"
    by (simp add: incIP_inc_le)
  have 4: "expandCIDR parse_examples dotted ''0.0.0.0/0'' = None"
    using expandCIDR_slash_zero [of parse_examples "''0.0.0.0/0''" "[0, 0, 0, 0]" dotted] 1
    by simp
  from 1 2 4 show ?thesis by (intro conjI)
qed


section \<open>Properties of pingHost\<close>

lemma try_ports_find:
  "try_ports net ip ps host =
     (case List.find (qualifies net ip) ps of
        None \<Rightarrow> (host, ps)
      | Some p \<Rightarrow>
          (host\<lparr>Alive := True, LatencyMs := to_ms net (snd (dial net ip p))\<rparr>,
           takeWhile (\<lambda>q. \<not> qualifies net ip q) ps @ [p]))"
proof (induction ps)
  case Nil
  then show ?case by simp
next
  case (Cons port rest)
  obtain err us where d: "dial net ip port = (err, us)" by (cases "dial net ip port")
  show ?case
  proof (cases "qualifies net ip port")
    case True
    with d show ?thesis by (auto simp: qualifies_def split: option.splits)
  next
    case False
    with d have "err \<noteq> None" "\<not> isConnectionRefused (the err)"
      by (auto simp: qualifies_def split: option.splits)
    with d False Cons.IH show ?thesis by (simp split: option.splits)
  qed
qed

lemma pingHost_trace_find:
  fixes net :: "('f::zero) network"
  shows "(case List.find (qualifies net ip) ping_ports of
       None \<Rightarrow>
         \<not> Alive (pingHost net ip) \<and> snd (pingHost_trace net ip) = ping_ports
     | Some port \<Rightarrow>
         Alive (pingHost net ip) \<and>
         LatencyMs (pingHost net ip) = to_ms net (snd (dial net ip port)) \<and>
         snd (pingHost_trace net ip) =
           takeWhile (\<lambda>q. \<not> qualifies net ip q) ping_ports @ [port])"
  by (simp add: pingHost_def pingHost_trace_def try_ports_find Let_def
      split: option.splits sum.splits)

lemma isConnectionRefused_examples:
  "isConnectionRefused (OpError ''dial tcp 10.0.0.5:22: connect: connection refused'' None)"
  "\<not> isConnectionRefused (OpError ''dial tcp: i/o timeout'' None)"
  by code_simp+

lemma example_net_qualifies:
  "qualifies example_net ip port \<longleftrightarrow> ip = ''10.0.0.5'' \<and> port = 22"
  by (simp add: qualifies_def example_net_def isConnectionRefused_examples)

text \<open>
  C8. pingHost dials the ports 80, 443, 22, 21, 445, 139 in this order. When the port at
  position \<open>k\<close> is the first that qualifies (its dial connects, or fails with an error
  for which isConnectionRefused holds), the host is alive, its latency is the time of
  that dial, and the ports dialled are the first \<open>k + 1\<close> of the list: no later port is
  tried. When no port qualifies the host is not alive and all six ports were dialled.
\<close>

theorem pingHost_first_qualifying_port:
  fixes net :: "('f::zero) network"
  shows "ping_ports = [80, 443, 22, 21, 445, 139]
    \<and> (\<forall>k < length ping_ports.
          qualifies net ip (ping_ports ! k) \<and> (\<forall>i<k. \<not> qualifies net ip (ping_ports ! i)) \<longrightarrow>
            Alive (pingHost net ip) \<and>
            LatencyMs (pingHost net ip) = to_ms net (snd (dial net ip (ping_ports ! k))) \<and>
            snd (pingHost_trace net ip) = take (Suc k) ping_ports)
    \<and> ((\<forall>port \<in> set ping_ports. \<not> qualifies net ip port) \<longrightarrow>
          \<not> Alive (pingHost net ip) \<and> snd (pingHost_trace net ip) = ping_ports)
    \<and> (qualifies net ip port \<longleftrightarrow>
          fst (dial net ip port) = None \<or>
          (\<exists>e. fst (dial net ip port) = Some e \<and> isConnectionRefused e))"
proof -
  note tr = pingHost_trace_find [of net ip]
  have 1: "ping_ports = [80, 443, 22, 21, 445, 139]" by (simp add: ping_ports_def)
  have 2: "\<forall>k < length ping_ports.
          qualifies net ip (ping_ports ! k) \<and> (\<forall>i<k. \<not> qualifies net ip (ping_ports ! i)) \<longrightarrow>
            Alive (pingHost net ip) \<and>
            LatencyMs (pingHost net ip) = to_ms net (snd (dial net ip (ping_ports ! k))) \<and>
            snd (pingHost_trace net ip) = take (Suc k) ping_ports"
  proof (intro allI impI, elim conjE)
    fix k assume k: "k < length ping_ports" "qualifies net ip (ping_ports ! k)"
      "\<forall>i<k. \<not> qualifies net ip (ping_ports ! i)"
    then have f: "List.find (qualifies net ip) ping_ports = Some (ping_ports ! k)"
      by (auto simp: find_Some_iff)
    from k have "takeWhile (\<lambda>q. \<not> qualifies net ip q) ping_ports = take k ping_ports"
      by (intro takeWhile_eq_take_P_nth) auto
    moreover from k(1) have "take k ping_ports @ [ping_ports ! k] = take (Suc k) ping_ports"
      by (simp add: take_Suc_conv_app_nth)
    ultimately show "Alive (pingHost net ip) \<and>
            LatencyMs (pingHost net ip) = to_ms net (snd (dial net ip (ping_ports ! k))) \<and>
            snd (pingHost_trace net ip) = take (Suc k) ping_ports"
      using tr f by simp
  qed
  have 3: "(\<forall>port \<in> set ping_ports. \<not> qualifies net ip port) \<longrightarrow>
          \<not> Alive (pingHost net ip) \<and> snd (pingHost_trace net ip) = ping_ports"
  proof
    assume "\<forall>port \<in> set ping_ports. \<not> qualifies net ip port"
    then have "List.find (qualifies net ip) ping_ports = None" by (simp add: find_None_iff)
    with tr show "\<not> Alive (pingHost net ip) \<and> snd (pingHost_trace net ip) = ping_ports"
      by simp
  qed
  have 4: "qualifies net ip port \<longleftrightarrow>
          fst (dial net ip port) = None \<or>
          (\<exists>e. fst (dial net ip port) = Some e \<and> isConnectionRefused e)"
    by (simp add: qualifies_def split: option.splits)
  from 1 2 3 4 show ?thesis by (intro conjI)
qed

text \<open>
  An instance: 10.0.0.5 refuses on port 22, the third port of the list, after 850
  microseconds; 10.0.0.6 lets all six dials time out.
\<close>

theorem pingHost_first_qualifying_port_witness:
  "Alive (pingHost example_net ''10.0.0.5'')
   \<and> LatencyMs (pingHost example_net ''10.0.0.5'') = 850 / 1000
   \<and> snd (pingHost_trace example_net ''10.0.0.5'') = [80, 443, 22]
   \<and> \<not> Alive (pingHost example_net ''10.0.0.6'')
   \<and> snd (pingHost_trace example_net ''10.0.0.6'') = [80, 443, 22, 21, 445, 139]"
proof -
  note a = pingHost_first_qualifying_port [of example_net "''10.0.0.5''" 22]
  note b = pingHost_first_qualifying_port [of example_net "''10.0.0.6''" 22]
  from a have pp: "ping_ports = [80, 443, 22, 21, 445, 139]" by blast
  have k: "(2::nat) < length ping_ports" "qualifies example_net ''10.0.0.5'' (ping_ports ! 2)"
      "\<forall>i<2. \<not> qualifies example_net ''10.0.0.5'' (ping_ports ! i)"
    unfolding pp by (simp_all add: example_net_qualifies less_Suc_eq numeral_2_eq_2)
  from a k have "Alive (pingHost example_net ''10.0.0.5'') \<and>
      LatencyMs (pingHost example_net ''10.0.0.5'') =
        to_ms example_net (snd (dial example_net ''10.0.0.5'' (ping_ports ! 2))) \<and>
      snd (pingHost_trace example_net ''10.0.0.5'') = take (Suc 2) ping_ports"
    by blast
  then have A: "Alive (pingHost example_net ''10.0.0.5'')"
      "LatencyMs (pingHost example_net ''10.0.0.5'') = 850 / 1000"
      "snd (pingHost_trace example_net ''10.0.0.5'') = [80, 443, 22]"
    unfolding pp by (simp_all add: example_net_def)
  have "\<forall>port \<in> set ping_ports. \<not> qualifies example_net ''10.0.0.6'' port"
    by (simp add: example_net_qualifies)
  with b have "\<not> Alive (pingHost example_net ''10.0.0.6'') \<and>
      snd (pingHost_trace example_net ''10.0.0.6'') = ping_ports" by blast
  then have B: "\<not> Alive (pingHost example_net ''10.0.0.6'')"
      "snd (pingHost_trace example_net ''10.0.0.6'') = [80, 443, 22, 21, 445, 139]"
    unfolding pp by simp_all
  from A B show ?thesis by (intro conjI)
qed


section \<open>Properties of the worker pool, ScanHost and SweepSubnet\<close>

lemma hand_update:
  "w < length ws \<Longrightarrow>
   sum_list (map hand (ws[w := v])) + hand (ws ! w) = sum_list (map hand ws) + hand v"
proof (induction ws arbitrary: w)
  case Nil
  then show ?case by simp
next
  case (Cons a ws)
  show ?case
  proof (cases w)
    case 0
    then show ?thesis by simp
  next
    case (Suc w')
    with Cons.prems have "w' < length ws" by simp
    from Cons.IH [OF this] Suc show ?thesis by (simp add: ac_simps)
  qed
qed

lemma hand_all_Exited: "\<forall>w \<in> set ws. w = Exited \<Longrightarrow> sum_list (map hand ws) = {#}"
  by (induction ws) auto

lemma map_filter_snoc:
  "List.map_filter f (xs @ [x]) = List.map_filter f xs @ (case f x of None \<Rightarrow> [] | Some r \<Rightarrow> [r])"
  by (simp add: List.map_filter_def split: option.splits)

lemma hand_replicate_Idle: "sum_list (replicate n ({#} :: 'a multiset)) = {#}"
  by (induction n) auto

lemma pool_init_inv: "pool_inv fn items (nat c) (pool_init items c)"
  by (simp add: pool_inv_def pool_init_def pending_def List.map_filter_simps
      hand_replicate_Idle)

lemma set_update_Exited:
  "w < length ws \<Longrightarrow> Exited \<in> set (ws[w := v]) \<Longrightarrow> v \<noteq> Exited \<Longrightarrow> Exited \<in> set ws"
  by (metis in_set_conv_nth length_list_update nth_list_update_eq nth_list_update_neq)

lemma pool_step_inv:
  assumes "pool_step fn e p = Some p'" and "pool_inv fn items n p"
  shows "pool_inv fn items n p'"
proof (cases e)
  case Send
  with assms(1) obtain x xs where x: "to_send p = x # xs"
      and p': "p' = p\<lparr>to_send := xs, jobs := jobs p @ [x]\<rparr>"
    by (auto split: list.splits)
  with assms(2) show ?thesis by (auto simp: pool_inv_def pending_def)
next
  case SkipSend
  with assms(1) obtain x xs where x: "to_send p = x # xs" "cancelled p"
      and p': "p' = p\<lparr>to_send := xs\<rparr>"
    by (auto split: list.splits if_splits)
  from assms(2) have "mset (attempted p) + pending p \<subseteq># mset items" by (simp add: pool_inv_def)
  moreover from x p' have "pending p = pending p' + {#x#}" by (simp add: pending_def)
  ultimately have "mset (attempted p') + pending p' \<subseteq># mset items"
    using p' by (metis (no_types, lifting) add.assoc mset_subset_eq_add_left subset_mset.order_trans
        pool.select_convs(5) pool.surjective pool.update_convs(1))
  with assms(2) x p' show ?thesis by (auto simp: pool_inv_def)
next
  case Close
  with assms show ?thesis by (auto simp: pool_inv_def pending_def split: if_splits)
next
  case (Take w)
  with assms(1) obtain x xs where w: "w < length (workers p)" "workers p ! w = Idle"
      and x: "jobs p = x # xs"
      and p': "p' = p\<lparr>jobs := xs, workers := (workers p)[w := Holding x]\<rparr>"
    by (auto split: list.splits if_splits)
  from hand_update [OF w(1), of "Holding x"] w(2)
  have h: "sum_list (map hand ((workers p)[w := Holding x])) = sum_list (map hand (workers p)) + {#x#}"
    by simp
  with x p' have pend: "pending p' = pending p" by (simp add: pending_def)
  have ex: "Exited \<in> set (workers p') \<Longrightarrow> Exited \<in> set (workers p)"
    using p' w(1) set_update_Exited [of w "workers p" "Holding x"] by simp
  from assms(2) x have "\<not> (\<not> cancelled p \<and> Exited \<in> set (workers p))"
    by (auto simp: pool_inv_def)
  with ex p' have "\<not> (\<not> cancelled p' \<and> Exited \<in> set (workers p'))" by auto
  moreover from assms(2) pend p' have "length (workers p') = n"
      "results p' = List.map_filter fn (attempted p')"
      "mset (attempted p') + pending p' \<subseteq># mset items"
      "\<not> cancelled p' \<longrightarrow> mset (attempted p') + pending p' = mset items"
      "jobs_closed p' \<longrightarrow> to_send p' = []"
    by (simp_all add: pool_inv_def)
  ultimately show ?thesis unfolding pool_inv_def by blast
next
  case (Poll w)
  with assms(1) obtain x where w: "w < length (workers p)" "workers p ! w = Holding x"
    by (auto split: if_splits worker.splits)
  show ?thesis
  proof (cases "cancelled p")
    case True
    with Poll assms(1) w have p': "p' = p\<lparr>workers := (workers p)[w := Exited]\<rparr>" by simp
    from hand_update [OF w(1), of Exited] w(2)
    have "sum_list (map hand (workers p)) = sum_list (map hand ((workers p)[w := Exited])) + {#x#}"
      by simp
    with p' have "pending p = pending p' + {#x#}" by (simp add: pending_def)
    moreover from assms(2) have "mset (attempted p) + pending p \<subseteq># mset items"
      by (simp add: pool_inv_def)
    ultimately have "mset (attempted p) + pending p' \<subseteq># mset items"
      by (metis add.assoc mset_subset_eq_add_left subset_mset.order_trans)
    with assms(2) True p' show ?thesis by (simp add: pool_inv_def)
  next
    case False
    with Poll assms(1) w have p': "p' = p\<lparr>workers := (workers p)[w := Busy x]\<rparr>" by simp
    from hand_update [OF w(1), of "Busy x"] w(2)
    have "sum_list (map hand ((workers p)[w := Busy x])) = sum_list (map hand (workers p))"
      by simp
    with p' have pend: "pending p' = pending p" by (simp add: pending_def)
    have ex: "Exited \<in> set (workers p') \<Longrightarrow> Exited \<in> set (workers p)"
      using p' w(1) set_update_Exited [of w "workers p" "Busy x"] by simp
    with assms(2) pend p' show ?thesis by (auto simp: pool_inv_def)
  qed
next
  case (Finish w)
  with assms(1) obtain x where w: "w < length (workers p)" "workers p ! w = Busy x"
      and p': "p' = p\<lparr>workers := (workers p)[w := Idle], attempted := attempted p @ [x],
                     results := results p @ (case fn x of None \<Rightarrow> [] | Some r \<Rightarrow> [r])\<rparr>"
    by (auto split: if_splits worker.splits)
  from hand_update [OF w(1), of Idle] w(2)
  have "sum_list (map hand (workers p)) = sum_list (map hand ((workers p)[w := Idle])) + {#x#}"
    by simp
  with p' have pend: "pending p = pending p' + {#x#}" by (simp add: pending_def)
  from p' have att: "mset (attempted p') = mset (attempted p) + {#x#}" by simp
  from pend att have total: "mset (attempted p') + pending p' = mset (attempted p) + pending p"
    by (simp add: ac_simps)
  have ex: "Exited \<in> set (workers p') \<Longrightarrow> Exited \<in> set (workers p)"
    using p' w(1) set_update_Exited [of w "workers p" Idle] by simp
  from assms(2) p' have res: "results p' = List.map_filter fn (attempted p')"
    by (simp add: pool_inv_def map_filter_snoc)
  from p' have f: "cancelled p' = cancelled p" "jobs_closed p' = jobs_closed p"
      "to_send p' = to_send p" "jobs p' = jobs p" "length (workers p') = length (workers p)"
    by simp_all
  from assms(2) show ?thesis
    unfolding pool_inv_def total f using res ex by blast
next
  case (Exit w)
  with assms(1) have w: "w < length (workers p)" "workers p ! w = Idle" "jobs p = []" "jobs_closed p"
      and p': "p' = p\<lparr>workers := (workers p)[w := Exited]\<rparr>"
    by (auto split: if_splits)
  from hand_update [OF w(1), of Exited] w(2)
  have "sum_list (map hand ((workers p)[w := Exited])) = sum_list (map hand (workers p))"
    by simp
  with p' have pend: "pending p' = pending p" by (simp add: pending_def)
  with assms(2) w p' show ?thesis by (simp add: pool_inv_def)
next
  case Cancel
  with assms show ?thesis by (auto simp: pool_inv_def pending_def)
qed


lemma pool_steps_inv:
  "pool_steps fn es p = Some p' \<Longrightarrow> pool_inv fn items n p \<Longrightarrow> pool_inv fn items n p'"
proof (induction es arbitrary: p)
  case Nil
  then show ?case by simp
next
  case (Cons e es)
  from Cons.prems(1) obtain p1 where p1: "pool_step fn e p = Some p1" "pool_steps fn es p1 = Some p'"
    by (auto split: option.splits)
  from p1(1) Cons.prems(2) have "pool_inv fn items n p1" by (rule pool_step_inv)
  with p1(2) show ?case by (rule Cons.IH)
qed

lemma pool_step_cancelled:
  "pool_step fn e p = Some p' \<Longrightarrow> cancelled p' = (cancelled p \<or> e = Cancel)"
  by (cases e) (auto split: list.splits if_splits worker.splits)

lemma pool_steps_cancelled:
  "pool_steps fn es p = Some p' \<Longrightarrow> cancelled p' = (cancelled p \<or> Cancel \<in> set es)"
proof (induction es arbitrary: p)
  case Nil
  then show ?case by simp
next
  case (Cons e es)
  from Cons.prems obtain p1 where p1: "pool_step fn e p = Some p1" "pool_steps fn es p1 = Some p'"
    by (auto split: option.splits)
  from pool_step_cancelled [OF p1(1)] Cons.IH [OF p1(2)] show ?case by auto
qed

lemma pool_run_attempts:
  assumes "pool_run fn items c sched = Some p"
  shows "results p = List.map_filter fn (attempted p)"
    and "mset (attempted p) \<subseteq># mset items"
    and "Cancel \<notin> set sched \<Longrightarrow> 0 < c \<Longrightarrow> mset (attempted p) = mset items"
proof -
  from assms have st: "pool_steps fn sched (pool_init items c) = Some p" and d: "pool_done p"
    by (auto simp: pool_run_def split: option.splits if_splits)
  from st pool_init_inv have inv: "pool_inv fn items (nat c) p" by (rule pool_steps_inv)
  then show "results p = List.map_filter fn (attempted p)" by (simp add: pool_inv_def)
  from inv have "mset (attempted p) + pending p \<subseteq># mset items" by (simp add: pool_inv_def)
  then show "mset (attempted p) \<subseteq># mset items"
    by (metis mset_subset_eq_add_left subset_mset.order_trans)
  assume nc: "Cancel \<notin> set sched" and c: "0 < c"
  from pool_steps_cancelled [OF st] nc have live: "\<not> cancelled p" by (simp add: pool_init_def)
  from inv c have "workers p \<noteq> []" by (auto simp: pool_inv_def)
  with d have "Exited \<in> set (workers p)" by (cases "workers p") (auto simp: pool_done_def)
  with inv live have "jobs_closed p" "jobs p = []" "to_send p = []" by (auto simp: pool_inv_def)
  moreover from d have "sum_list (map hand (workers p)) = {#}"
    by (intro hand_all_Exited) (simp add: pool_done_def)
  ultimately have "pending p = {#}" by (simp add: pending_def)
  with inv live show "mset (attempted p) = mset items" by (simp add: pool_inv_def)
qed

text \<open>
  The pool can always finish: with at least one worker and a live context the schedule
  \<^const>\<open>sequential\<close> runs to the end, with every item attempted in order.
\<close>

lemma pool_steps_append:
  "pool_steps fn (es @ fs) p =
     (case pool_steps fn es p of None \<Rightarrow> None | Some q \<Rightarrow> pool_steps fn fs q)"
  by (induction es arbitrary: p) (auto split: option.splits)

lemma run_sends:
  "to_send p = xs \<Longrightarrow>
   pool_steps fn (replicate (length xs) Send) p = Some (p\<lparr>to_send := [], jobs := jobs p @ xs\<rparr>)"
proof (induction xs arbitrary: p)
  case Nil
  then show ?case by simp
next
  case (Cons x xs)
  let ?q = "p\<lparr>to_send := xs, jobs := jobs p @ [x]\<rparr>"
  have "to_send ?q = xs" by simp
  from Cons.IH [OF this] Cons.prems show ?case by simp
qed

lemma run_worker:
  "jobs p = xs \<Longrightarrow> 0 < length (workers p) \<Longrightarrow> workers p ! 0 = Idle \<Longrightarrow> \<not> cancelled p \<Longrightarrow>
   pool_steps fn (concat (replicate (length xs) [Take 0, Poll 0, Finish 0])) p =
     Some (p\<lparr>jobs := [], attempted := attempted p @ xs,
             results := results p @ List.map_filter fn xs\<rparr>)"
proof (induction xs arbitrary: p)
  case Nil
  then show ?case by (simp add: List.map_filter_simps)
next
  case (Cons x xs)
  let ?q = "p\<lparr>jobs := xs, attempted := attempted p @ [x],
               results := results p @ (case fn x of None \<Rightarrow> [] | Some r \<Rightarrow> [r])\<rparr>"
  have id: "(workers p)[0 := Idle] = workers p"
    using Cons.prems(3) by (metis list_update_id)
  have three: "pool_steps fn [Take 0, Poll 0, Finish 0] p = Some ?q"
    using Cons.prems by (simp add: id)
  have q: "jobs ?q = xs" "0 < length (workers ?q)" "workers ?q ! 0 = Idle" "\<not> cancelled ?q"
    using Cons.prems by simp_all
  have "pool_steps fn (concat (replicate (length (x # xs)) [Take 0, Poll 0, Finish 0])) p =
      pool_steps fn (concat (replicate (length xs) [Take 0, Poll 0, Finish 0])) ?q"
  proof -
    have "concat (replicate (length (x # xs)) [Take 0, Poll 0, Finish 0]) =
        [Take 0, Poll 0, Finish 0] @ concat (replicate (length xs) [Take 0, Poll 0, Finish 0])"
      by simp
    then show ?thesis
      using three by (simp only: pool_steps_append option.case)
  qed
  also have "\<dots> = Some (?q\<lparr>jobs := [], attempted := attempted ?q @ xs,
             results := results ?q @ List.map_filter fn xs\<rparr>)"
    by (rule Cons.IH [OF q])
  finally show ?case by (simp add: List.map_filter_simps split: option.splits)
qed

lemma run_exits:
  "jobs p = [] \<Longrightarrow> jobs_closed p \<Longrightarrow> workers p = replicate k Exited @ replicate m Idle \<Longrightarrow>
   pool_steps fn (map Exit [k ..< k + m]) p = Some (p\<lparr>workers := replicate (k + m) Exited\<rparr>)"
proof (induction m arbitrary: k p)
  case 0
  then show ?case by simp
next
  case (Suc m)
  let ?q = "p\<lparr>workers := replicate (Suc k) Exited @ replicate m Idle\<rparr>"
  have w: "(workers p)[k := Exited] = replicate (Suc k) Exited @ replicate m Idle"
    using Suc.prems(3) by (simp add: list_update_append replicate_append_same)
  have "workers p ! k = Idle" "k < length (workers p)"
    using Suc.prems(3) by (simp_all add: nth_append)
  with Suc.prems w have one: "pool_step fn (Exit k) p = Some ?q" by simp
  have "[k ..< k + Suc m] = k # [Suc k ..< Suc k + m]" by (simp add: upt_conv_Cons)
  then have "pool_steps fn (map Exit [k ..< k + Suc m]) p =
      pool_steps fn (map Exit [Suc k ..< Suc k + m]) ?q"
    using one by simp
  also have "\<dots> = Some (?q\<lparr>workers := replicate (Suc k + m) Exited\<rparr>)"
    using Suc.prems by (intro Suc.IH) simp_all
  finally show ?case by simp
qed

lemma pool_can_finish:
  assumes "0 < c"
  shows "\<exists>p. pool_run fn items c (sequential (length items) (nat c)) = Some p
      \<and> attempted p = items \<and> results p = List.map_filter fn items"
    and "Cancel \<notin> set (sequential (length items) (nat c))"
proof -
  let ?n = "nat c"
  let ?p0 = "pool_init items c :: ('a, 'b) pool"
  let ?p1 = "?p0\<lparr>to_send := [], jobs := jobs ?p0 @ items\<rparr>"
  let ?p2 = "?p1\<lparr>jobs_closed := True\<rparr>"
  let ?p3 = "?p2\<lparr>jobs := [], attempted := attempted ?p2 @ items,
             results := results ?p2 @ List.map_filter fn items\<rparr>"
  let ?p4 = "?p3\<lparr>workers := replicate (0 + ?n) Exited\<rparr>"
  from assms obtain n' where n: "?n = Suc n'" by (cases ?n) auto
  have s1: "pool_steps fn (replicate (length items) Send) ?p0 = Some ?p1"
    by (rule run_sends) (simp add: pool_init_def)
  have s2: "pool_steps fn [Close] ?p1 = Some ?p2" by (simp add: pool_init_def)
  have s3: "pool_steps fn (concat (replicate (length items) [Take 0, Poll 0, Finish 0])) ?p2 = Some ?p3"
    by (rule run_worker) (simp_all add: pool_init_def n)
  have s4: "pool_steps fn (map Exit [0 ..< 0 + ?n]) ?p3 = Some ?p4"
    by (rule run_exits) (simp_all add: pool_init_def)
  have "pool_steps fn (sequential (length items) ?n) ?p0 = Some ?p4"
    unfolding sequential_def using s1 s2 s3 s4
    by (simp only: pool_steps_append option.case) simp
  moreover have "pool_done ?p4" by (simp add: pool_done_def)
  ultimately have "pool_run fn items c (sequential (length items) ?n) = Some ?p4"
    by (simp add: pool_run_def)
  moreover have "attempted ?p4 = items" "results ?p4 = List.map_filter fn items"
    by (simp_all add: pool_init_def)
  ultimately show "\<exists>p. pool_run fn items c (sequential (length items) (nat c)) = Some p
      \<and> attempted p = items \<and> results p = List.map_filter fn items" by blast
  show "Cancel \<notin> set (sequential (length items) (nat c))"
    by (auto simp: sequential_def)
qed

lemma NewPingProbe_concurrency: "0 < ping_concurrency (NewPingProbe c t)"
  by (simp add: NewPingProbe_def)


lemma ScanHost_returns:
  assumes "0 < scan_concurrency s"
  shows "\<exists>out. ScanHost connect now s host
      (sequential (length (ports s)) (nat (scan_concurrency s))) = Some out"
  using pool_can_finish(1) [OF assms, of "scanPort connect host" "ports s"]
  by (auto simp: ScanHost_def)

lemma SweepSubnet_returns:
  assumes "expandCIDR parse str cidr = Some (Inr ips)"
  shows "\<exists>hosts. SweepSubnet parse str net (NewPingProbe c t) cidr
      (sequential (length ips) (nat (ping_concurrency (NewPingProbe c t)))) = Some (Inr hosts)"
  using pool_can_finish(1) [OF NewPingProbe_concurrency, of "\<lambda>ip. Some (pingHost net ip)" ips c t] assms
  by (auto simp: SweepSubnet_def)

lemma collect_ports_fields:
  "map Port (collect_ports now k rs) = map res_Port rs"
  "map State (collect_ports now k rs) = map res_State rs"
  "map Service (collect_ports now k rs) = map res_Service rs"
  "map Banner (collect_ports now k rs) = map res_Banner rs"
  "\<forall>r \<in> set (collect_ports now k rs). Protocol r = ''tcp'' \<and> port_ID r = 0 \<and> HostID r = 0"
  by (induction rs arbitrary: k) auto

lemma collect_ports_all:
  "(\<forall>r \<in> set rs. res_State r = ''open'' \<and> res_Service r = getServiceName (res_Port r)) \<Longrightarrow>
   \<forall>r \<in> set (collect_ports now k rs).
      State r = ''open'' \<and> Protocol r = ''tcp'' \<and> Service r = getServiceName (Port r)"
  by (induction rs arbitrary: k) auto

lemma scanPort_results:
  "map res_Port (List.map_filter (scanPort connect host) xs) = filter (connect_ok connect host) xs"
  "\<forall>r \<in> set (List.map_filter (scanPort connect host) xs).
      res_State r = ''open'' \<and> res_Service r = getServiceName (res_Port r)"
  by (induction xs)
     (auto simp: List.map_filter_simps scanPort_def connect_ok_def split: sum.splits)

lemma ssh_name: "getServiceName 22 = ''ssh''"
  by (simp add: getServiceName_def serviceNames_def)

lemma filter_eq_count: "length (filter (\<lambda>x. x = a) xs) = count_list xs a"
  by (induction xs) auto

text \<open>
  C9. For every run of ScanHost that returns: the ports on which scanPort was called
  are configured ports, each taken at most as often as it is configured, and all of them
  when the context was not cancelled; the result holds one ScanPort for each of these
  calls whose connect succeeded, in the order of the calls, and nothing for a call whose
  connect failed; every ScanPort has state \<^verbatim>\<open>open\<close>, protocol \<^verbatim>\<open>tcp\<close> and the service
  name of the table, \<^verbatim>\<open>unknown\<close> for a port the table lacks. When 22 is configured
  once and is the only port that accepts connections, an uncancelled scan returns
  exactly one ScanPort, with port 22, state \<^verbatim>\<open>open\<close> and service \<^verbatim>\<open>ssh\<close>.
\<close>

theorem ScanHost_reports_open_ports:
  assumes "ScanHost connect now s host sched = Some out"
  shows "\<exists>dialled.
      ScanHost_dials connect s host sched = Some dialled
    \<and> mset dialled \<subseteq># mset (ports s)
    \<and> (Cancel \<notin> set sched \<and> 0 < scan_concurrency s \<longrightarrow> mset dialled = mset (ports s))
    \<and> map Port out = filter (connect_ok connect host) dialled
    \<and> (\<forall>r \<in> set out.
          State r = ''open'' \<and> Protocol r = ''tcp'' \<and> Service r = getServiceName (Port r))
    \<and> (map_of serviceNames port = None \<longrightarrow> getServiceName port = ''unknown'')
    \<and> (Cancel \<notin> set sched \<and> 0 < scan_concurrency s \<and> count_list (ports s) 22 = 1 \<and>
        (\<forall>q. connect_ok connect host q \<longleftrightarrow> q = 22) \<longrightarrow>
          (\<exists>b t. out = [\<lparr>port_ID = 0, HostID = 0, Port = 22, Protocol = ''tcp'',
                           Service = ''ssh'', State = ''open'', Banner = b,
                           port_LastSeen = t\<rparr>]))"
proof -
  from assms obtain p where run: "pool_run (scanPort connect host) (ports s) (scan_concurrency s) sched = Some p"
    and out: "out = collect_ports now 0 (results p)"
    by (auto simp: ScanHost_def split: option.splits)
  note att = pool_run_attempts [OF run]
  let ?d = "attempted p"
  have 1: "ScanHost_dials connect s host sched = Some ?d" by (simp add: ScanHost_dials_def run)
  have 2: "mset ?d \<subseteq># mset (ports s)" by (rule att(2))
  have 3: "Cancel \<notin> set sched \<and> 0 < scan_concurrency s \<longrightarrow> mset ?d = mset (ports s)"
    using att(3) by blast
  have 4: "map Port out = filter (connect_ok connect host) ?d"
    by (simp add: out collect_ports_fields att(1) scanPort_results)
  have 5: "\<forall>r \<in> set out.
          State r = ''open'' \<and> Protocol r = ''tcp'' \<and> Service r = getServiceName (Port r)"
    unfolding out att(1) by (rule collect_ports_all) (rule scanPort_results(2))
  have 6: "map_of serviceNames port = None \<longrightarrow> getServiceName port = ''unknown''"
    by (simp add: getServiceName_def)
  have 7: "Cancel \<notin> set sched \<and> 0 < scan_concurrency s \<and> count_list (ports s) 22 = 1 \<and>
        (\<forall>q. connect_ok connect host q \<longleftrightarrow> q = 22) \<longrightarrow>
          (\<exists>b t. out = [\<lparr>port_ID = 0, HostID = 0, Port = 22, Protocol = ''tcp'',
                           Service = ''ssh'', State = ''open'', Banner = b,
                           port_LastSeen = t\<rparr>])"
  proof (intro impI, elim conjE)
    assume a: "Cancel \<notin> set sched" "0 < scan_concurrency s" "count_list (ports s) 22 = 1"
      "\<forall>q. connect_ok connect host q \<longleftrightarrow> q = 22"
    from 3 a have m: "mset ?d = mset (ports s)" by blast
    then have "count_list ?d 22 = count_list (ports s) 22" by (metis count_mset)
    with a(3) have c: "count_list ?d 22 = 1" by simp
    from a(4) have "connect_ok connect host = (\<lambda>q. q = 22)" by auto
    with 4 have mp: "map Port out = filter (\<lambda>q. q = 22) ?d" by simp
    then have "length out = length (filter (\<lambda>q. q = 22) ?d)" by (metis length_map)
    with c have "length out = 1" by (simp add: filter_eq_count)
    then obtain r where r: "out = [r]" by (cases out) auto
    with mp have "Port r \<in> set (filter (\<lambda>q. q = 22) ?d)" by (metis list.set_intros(1) list.simps(9))
    then have p22: "Port r = 22" by simp
    from 5 r have f: "State r = ''open''" "Protocol r = ''tcp''" "Service r = getServiceName (Port r)"
      by simp_all
    from r out have "r \<in> set (collect_ports now 0 (results p))" by simp
    with collect_ports_fields(5) have z: "port_ID r = 0" "HostID r = 0" by blast+
    from p22 f z have "r = \<lparr>port_ID = 0, HostID = 0, Port = 22, Protocol = ''tcp'',
                           Service = ''ssh'', State = ''open'', Banner = Banner r,
                           port_LastSeen = port_LastSeen r\<rparr>"
      by (simp add: ssh_name)
    with r show "\<exists>b t. out = [\<lparr>port_ID = 0, HostID = 0, Port = 22, Protocol = ''tcp'',
                           Service = ''ssh'', State = ''open'', Banner = b,
                           port_LastSeen = t\<rparr>]" by blast
  qed
  from 1 2 3 4 5 6 7 show ?thesis by (intro exI [of _ "attempted p"] conjI)
qed


lemma only_ssh_ok: "connect_ok only_ssh host q \<longleftrightarrow> q = 22"
  by (simp add: connect_ok_def only_ssh_def)

lemma example_scan:
  "ScanHost only_ssh tick (NewPortScanner 2 0 [80, 22, 443]) ''10.0.0.5''
     [Send, Take 0, Send, Take 1, Poll 1, Poll 0, Finish 1, Send, Close, Finish 0, Take 1,
      Exit 0, Poll 1, Finish 1, Exit 1] =
   Some [\<lparr>port_ID = 0, HostID = 0, Port = 22, Protocol = ''tcp'', Service = ''ssh'',
          State = ''open'', Banner = ''SSH-2.0-OpenSSH_9.6'', port_LastSeen = 1000\<rparr>]"
  by (simp add: ScanHost_def pool_run_def pool_init_def NewPortScanner_def pool_done_def
      scanPort_def only_ssh_def ssh_name grabBanner_def tick_def numeral_2_eq_2)


text \<open>
  An instance: two workers scan the ports 80, 22 and 443 of a host on which only port 22
  accepts connections; the workers interleave, and port 22 is dialled first.
\<close>

theorem ScanHost_reports_open_ports_witness:
  "ScanHost only_ssh tick (NewPortScanner 2 0 [80, 22, 443]) ''10.0.0.5''
     [Send, Take 0, Send, Take 1, Poll 1, Poll 0, Finish 1, Send, Close, Finish 0, Take 1,
      Exit 0, Poll 1, Finish 1, Exit 1] =
   Some [\<lparr>port_ID = 0, HostID = 0, Port = 22, Protocol = ''tcp'', Service = ''ssh'',
          State = ''open'', Banner = ''SSH-2.0-OpenSSH_9.6'', port_LastSeen = 1000\<rparr>]
   \<and> map_option mset (ScanHost_dials only_ssh (NewPortScanner 2 0 [80, 22, 443]) ''10.0.0.5''
     [Send, Take 0, Send, Take 1, Poll 1, Poll 0, Finish 1, Send, Close, Finish 0, Take 1,
      Exit 0, Poll 1, Finish 1, Exit 1]) = Some {#80, 22, 443#}
   \<and> getServiceName 4444 = ''unknown''"
proof -
  let ?s = "NewPortScanner 2 0 [80, 22, 443]"
  let ?sched = "[Send, Take 0, Send, Take 1, Poll 1, Poll 0, Finish 1, Send, Close, Finish 0,
      Take 1, Exit 0, Poll 1, Finish 1, Exit 1]"
  note run = example_scan
  from ScanHost_reports_open_ports [OF run, of 4444]
  obtain dialled where w: "ScanHost_dials only_ssh ?s ''10.0.0.5'' ?sched = Some dialled
      \<and> mset dialled \<subseteq># mset (ports ?s)
      \<and> (Cancel \<notin> set ?sched \<and> 0 < scan_concurrency ?s \<longrightarrow> mset dialled = mset (ports ?s))
      \<and> map Port [\<lparr>port_ID = 0, HostID = 0, Port = 22, Protocol = ''tcp'', Service = ''ssh'',
            State = ''open'', Banner = ''SSH-2.0-OpenSSH_9.6'', port_LastSeen = 1000\<rparr>] =
          filter (connect_ok only_ssh ''10.0.0.5'') dialled
      \<and> (\<forall>r \<in> set [\<lparr>port_ID = 0, HostID = 0, Port = 22, Protocol = ''tcp'', Service = ''ssh'',
            State = ''open'', Banner = ''SSH-2.0-OpenSSH_9.6'', port_LastSeen = 1000\<rparr>].
            State r = ''open'' \<and> Protocol r = ''tcp'' \<and> Service r = getServiceName (Port r))
      \<and> (map_of serviceNames 4444 = None \<longrightarrow> getServiceName 4444 = ''unknown'')
      \<and> (Cancel \<notin> set ?sched \<and> 0 < scan_concurrency ?s \<and> count_list (ports ?s) 22 = 1 \<and>
          (\<forall>q. connect_ok only_ssh ''10.0.0.5'' q \<longleftrightarrow> q = 22) \<longrightarrow>
          (\<exists>b t. [\<lparr>port_ID = 0, HostID = 0, Port = 22, Protocol = ''tcp'', Service = ''ssh'',
            State = ''open'', Banner = ''SSH-2.0-OpenSSH_9.6'', port_LastSeen = 1000\<rparr>] =
            [\<lparr>port_ID = 0, HostID = 0, Port = 22, Protocol = ''tcp'',
                           Service = ''ssh'', State = ''open'', Banner = b,
                           port_LastSeen = t\<rparr>]))"
    by (rule exE)
  from w have d: "ScanHost_dials only_ssh ?s ''10.0.0.5'' ?sched = Some dialled"
    by (rule conjunct1)
  from w have all: "Cancel \<notin> set ?sched \<and> 0 < scan_concurrency ?s \<longrightarrow>
      mset dialled = mset (ports ?s)"
    by (elim conjE)
  from w have unk: "map_of serviceNames 4444 = None \<longrightarrow> getServiceName 4444 = ''unknown''"
    by (elim conjE)
  have "Cancel \<notin> set ?sched" "0 < scan_concurrency ?s" "ports ?s = [80, 22, 443]"
    by (simp_all add: NewPortScanner_def)
  with all have "mset dialled = {#80, 22, 443#}" by simp
  with d have 2: "map_option mset (ScanHost_dials only_ssh ?s ''10.0.0.5'' ?sched) =
      Some {#80, 22, 443#}" by simp
  have "map_of serviceNames 4444 = None" by (simp add: serviceNames_def)
  with unk have 3: "getServiceName 4444 = ''unknown''" by blast
  from run 2 3 show ?thesis by (intro conjI)
qed










end
